theory Spec2Isabelle
  imports Complex_Main "HOL-Library.Word" "HOL-Library.Multiset"
begin

unbundle bit_operations_syntax

section \<open>Data model of \<open>shannon.go\<close>\<close>

text \<open>
  A Go \<open>rune\<close> is a 32-bit code point and \<open>Code.Bits\<close> is a \<open>uint32\<close>: both are
  \<open>32 word\<close>.  \<open>Code.Size\<close> and every bit count are Go \<open>int\<close>s, modelled as \<open>int\<close>
  (they only ever count bits, so the 64-bit wrap-around is out of reach).
  A Go string is modelled as the list of runes that \<open>for _, r := range s\<close> yields
  and that \<open>WriteRune\<close> writes: strings are taken to be valid UTF-8, where the two
  agree.

  \<open>Code.Prob\<close> is a \<open>float64\<close>.  The type \<open>float64\<close> and its operations are a
  parameter of the model: the type variable \<open>'f\<close> stands for \<open>float64\<close> and a record
  \<open>fl\<close> of type \<open>'f float_ops\<close> holds the operations the code uses.  A theorem
  stated for every \<open>fl\<close> holds of the IEEE operations of Go, whatever they round to.
\<close>

type_synonym rune = "32 word"
type_synonym uint32 = "32 word"

record 'f Code =
  Char :: rune
  Prob :: 'f
  Bits :: uint32
  Size :: int

text \<open>
  \<open>type Table map[rune]Code\<close>.  A Go map has unique keys and is ranged over in an
  order the runtime chooses; the table is modelled as an association list, whose order
  stands for the order of iteration.
\<close>

type_synonym 'f Table = "(rune \<times> 'f Code) list"

datatype error =
    EmptyTable            \<comment> \<open>\<open>empty shannon-fano table\<close>\<close>
  | UnknownSymbol rune    \<comment> \<open>\<open>rune '%c' not found in shannon-fano table\<close>\<close>
  | InvalidVector         \<comment> \<open>\<open>invalid bit vector\<close>\<close>
  | NoMatchingCode        \<comment> \<open>\<open>invalid bit vector or missing shannon code\<close>\<close>
  | TrailingBits          \<comment> \<open>\<open>encoded bits remaining\<close>\<close>

section \<open>Go's arithmetic\<close>

text \<open>
  The operations on \<open>float64\<close> that the code uses: \<open>+\<close>, \<open>-\<close>, \<open>*\<close>, \<open>/\<close>,
  \<open>math.Abs\<close>, \<open><\<close> (and \<open>a > b\<close>, which is \<open>b < a\<close>) and the conversion
  \<open>float64(n)\<close> of an \<open>int\<close>.  The literals \<open>0.0\<close> and \<open>1.0\<close> are the conversions of
  0 and 1.
\<close>

record 'f float_ops =
  fadd :: "'f \<Rightarrow> 'f \<Rightarrow> 'f"
  fsub :: "'f \<Rightarrow> 'f \<Rightarrow> 'f"
  fmul :: "'f \<Rightarrow> 'f \<Rightarrow> 'f"
  fdiv :: "'f \<Rightarrow> 'f \<Rightarrow> 'f"
  fabs :: "'f \<Rightarrow> 'f"
  fless :: "'f \<Rightarrow> 'f \<Rightarrow> bool"
  fof_int :: "int \<Rightarrow> 'f"

text \<open>
  Arithmetic without rounding, on the reals.  It is what \<open>float64\<close> computes as long as
  no operation rounds, as on integers below \<open>2^53\<close>; the concrete scenarios below are
  evaluated with it.
\<close>

definition exact :: "real float_ops" where
  "exact = \<lparr>fadd = (+), fsub = (-), fmul = (*), fdiv = (/), fabs = abs, fless = (<),
             fof_int = real_of_int\<rparr>"

text \<open>
  \<open>x << uint(k)\<close> and \<open>x >> uint(k)\<close> on a \<open>uint32\<close>: a count of 32 or more gives 0,
  and a negative \<open>int\<close> converted by \<open>uint(k)\<close> is such a count.
\<close>

definition shl :: "uint32 \<Rightarrow> int \<Rightarrow> uint32" where
  "shl x k = (if k < 0 then 0 else push_bit (nat k) x)"

definition shr :: "uint32 \<Rightarrow> int \<Rightarrow> uint32" where
  "shr x k = (if k < 0 then 0 else drop_bit (nat k) x)"

text \<open>Go's \<open>/\<close> on \<open>int\<close> truncates towards zero.\<close>

definition quo :: "int \<Rightarrow> int \<Rightarrow> int" where
  "quo a b = sgn a * sgn b * (\<bar>a\<bar> div \<bar>b\<bar>)"

section \<open>BuildTable\<close>

text \<open>
  Lines 72 to 75: \<open>prob := 0.0\<close>, then \<open>prob += code.Prob\<close> for every code of the
  slice, from the first to the last.
\<close>

definition fsum :: "'f float_ops \<Rightarrow> 'f list \<Rightarrow> 'f" where
  "fsum fl xs = foldl (fadd fl) (fof_int fl 0) xs"

text \<open>Line 83: \<open>math.Abs((prob - left) - left)\<close>.\<close>

definition diff_of :: "'f float_ops \<Rightarrow> 'f \<Rightarrow> 'f \<Rightarrow> 'f" where
  "diff_of fl prob left = fabs fl (fsub fl (fsub fl prob left) left)"

text \<open>
  The pivot loop of \<open>divide\<close> (lines 82 to 91): \<open>prob\<close> is the sum of the slice,
  \<open>left\<close> the running sum of the left half, \<open>best\<close> the best difference so far
  (1.0 at the start), \<open>p\<close> the loop variable, whose final value is the pivot.
\<close>

function pivot_loop :: "'f float_ops \<Rightarrow> 'f Code list \<Rightarrow> 'f \<Rightarrow> 'f \<Rightarrow> 'f \<Rightarrow> nat \<Rightarrow> nat" where
  "pivot_loop fl codes prob left best p =
     (if int p < int (length codes) - 1 then
        (let diff = diff_of fl prob left in
         if fless fl diff best
         then pivot_loop fl codes prob (fadd fl left (Prob (codes ! p))) diff (p + 1)
         else p)
      else p)"
  by pat_completeness auto
termination
  by (relation "measure (\<lambda>(fl, codes, prob, left, best, p). length codes - p)") auto

declare pivot_loop.simps [simp del]

text \<open>Lines 71 to 91, for a slice of at least two codes (so that \<open>codes[0]\<close> exists).\<close>

definition pivot :: "'f float_ops \<Rightarrow> 'f Code list \<Rightarrow> nat" where
  "pivot fl codes =
     pivot_loop fl codes (fsum fl (map Prob codes)) (Prob (hd codes)) (fof_int fl 1) 1"

text \<open>Lines 94 to 101: every code gets one more bit, 0 left of the pivot and 1 from it on.\<close>

definition mark :: "nat \<Rightarrow> nat \<Rightarrow> 'f Code \<Rightarrow> 'f Code" where
  "mark p i c =
     (let b = push_bit 1 (Bits c)
      in c\<lparr>Bits := (if p \<le> i then b OR 1 else b), Size := Size c + 1\<rparr>)"

definition mark_all :: "nat \<Rightarrow> 'f Code list \<Rightarrow> 'f Code list" where
  "mark_all p codes = map (\<lambda>(i, c). mark p i c) (enumerate 0 codes)"

lemma pivot_loop_bounds:
  "1 \<le> p \<Longrightarrow> p < length codes \<Longrightarrow>
   1 \<le> pivot_loop fl codes prob left best p \<and> pivot_loop fl codes prob left best p < length codes"
proof (induction fl codes prob left best p rule: pivot_loop.induct)
  case (1 fl codes prob left best p)
  show ?case
  proof (cases "int p < int (length codes) - 1 \<and> fless fl (diff_of fl prob left) best")
    case True
    then have less: "p + 1 < length codes" by linarith
    have "pivot_loop fl codes prob left best p
          = pivot_loop fl codes prob (fadd fl left (Prob (codes ! p))) (diff_of fl prob left) (p + 1)"
      using True by (subst pivot_loop.simps) (simp add: Let_def)
    moreover have
      "1 \<le> pivot_loop fl codes prob (fadd fl left (Prob (codes ! p))) (diff_of fl prob left) (p + 1)
       \<and> pivot_loop fl codes prob (fadd fl left (Prob (codes ! p))) (diff_of fl prob left) (p + 1)
            < length codes"
      using True less by (intro "1.IH" [OF _ refl]) simp_all
    ultimately show ?thesis by simp
  next
    case False
    then have "pivot_loop fl codes prob left best p = p"
      by (subst pivot_loop.simps) (auto simp: Let_def)
    with "1.prems" show ?thesis by simp
  qed
qed

lemma pivot_bounds:
  "2 \<le> length codes \<Longrightarrow> 1 \<le> pivot fl codes \<and> pivot fl codes < length codes"
  unfolding pivot_def by (rule pivot_loop_bounds) auto

text \<open>
  The closure \<open>divide\<close>.  The Go code updates the slice in place and recurses on the two
  sub-slices \<open>codes[:p]\<close> and \<open>codes[p:]\<close>, which share no element; the model returns
  the updated slice.
\<close>

function divide :: "'f float_ops \<Rightarrow> 'f Code list \<Rightarrow> 'f Code list" where
  "divide fl codes =
     (if length codes < 2 then codes
      else (let p = pivot fl codes; codes' = mark_all p codes
            in divide fl (take p codes') @ divide fl (drop p codes')))"
  by pat_completeness auto
termination
proof (relation "measure (\<lambda>(fl, codes). length codes)", goal_cases)
  case 1
  show ?case by simp
next
  case (2 fl codes p codes')
  then have "2 \<le> length codes" by simp
  from pivot_bounds [OF this, of fl] 2 show ?case by (simp add: mark_all_def)
next
  case (3 fl codes p codes')
  then have "2 \<le> length codes" by simp
  from pivot_bounds [OF this, of fl] 3 show ?case by (simp add: mark_all_def) linarith
qed

declare divide.simps [simp del]

text \<open>
  \<open>BuildTable\<close>.  The argument is the probability map in the order the first
  \<open>range\<close> visits it.  \<open>sort.Slice\<close> with \<open>codes[a].Prob > codes[b].Prob\<close> is
  modelled by an insertion sort with that comparison, which puts a code before the
  first one whose probability is not greater than its own.  Go's sort is not stable,
  but the order of the argument is arbitrary already.
\<close>

definition initial_codes :: "(rune \<times> 'f) list \<Rightarrow> 'f Code list" where
  "initial_codes freq = map (\<lambda>(r, prob). \<lparr>Char = r, Prob = prob, Bits = 0, Size = 0\<rparr>) freq"

fun insert_code :: "'f float_ops \<Rightarrow> 'f Code \<Rightarrow> 'f Code list \<Rightarrow> 'f Code list" where
  "insert_code fl c [] = [c]"
| "insert_code fl c (d # ds) =
     (if fless fl (Prob c) (Prob d) then d # insert_code fl c ds else c # d # ds)"

definition sort_codes :: "'f float_ops \<Rightarrow> 'f Code list \<Rightarrow> 'f Code list" where
  "sort_codes fl codes = foldr (insert_code fl) codes []"

definition BuildTable :: "'f float_ops \<Rightarrow> (rune \<times> 'f) list \<Rightarrow> 'f Table" where
  "BuildTable fl freq =
     map (\<lambda>code. (Char code, code)) (divide fl (sort_codes fl (initial_codes freq)))"

text \<open>
  \<open>BuildTableFromString\<close>: the first loop counts the runes (the map \<open>freq\<close>, here in
  order of first occurrence); \<open>len(s)\<close> is the length of the string in bytes, the sum
  of the UTF-8 lengths of its runes.
\<close>

fun count_rune :: "(rune \<times> int) list \<Rightarrow> rune \<Rightarrow> (rune \<times> int) list" where
  "count_rune [] r = [(r, 1)]"
| "count_rune ((k, n) # freq) r =
     (if k = r then (k, n + 1) # freq else (k, n) # count_rune freq r)"

definition utf8_len :: "rune \<Rightarrow> int" where
  "utf8_len r = (if r < 0x80 then 1 else if r < 0x800 then 2 else if r < 0x10000 then 3 else 4)"

definition len_bytes :: "rune list \<Rightarrow> int" where
  "len_bytes s = sum_list (map utf8_len s)"

definition BuildTableFromString :: "'f float_ops \<Rightarrow> rune list \<Rightarrow> 'f Table" where
  "BuildTableFromString fl s =
     BuildTable fl (map (\<lambda>(r, n). (r, fdiv fl (fof_int fl n) (fof_int fl (len_bytes s))))
                        (foldl count_rune [] s))"

text \<open>
  \<open>BuildTableFromOrderedRunes\<close>: \<open>prob[r] += float64(n-i) / m\<close> with
  \<open>m = float64(n*(n-1)/2 + n)\<close>; a rune not yet in the map has the probability \<open>0.0\<close>.
\<close>

fun add_prob :: "'f float_ops \<Rightarrow> (rune \<times> 'f) list \<Rightarrow> rune \<Rightarrow> 'f \<Rightarrow> (rune \<times> 'f) list" where
  "add_prob fl [] r x = [(r, fadd fl (fof_int fl 0) x)]"
| "add_prob fl ((k, y) # prob) r x =
     (if k = r then (k, fadd fl y x) # prob else (k, y) # add_prob fl prob r x)"

definition BuildTableFromOrderedRunes :: "'f float_ops \<Rightarrow> rune list \<Rightarrow> 'f Table" where
  "BuildTableFromOrderedRunes fl runes =
     (let n = int (length runes);
          m = fof_int fl (quo (n * (n - 1)) 2 + n)
      in BuildTable fl
           (foldl (\<lambda>prob (i, r). add_prob fl prob r (fdiv fl (fof_int fl (n - int i)) m))
                  [] (enumerate 0 runes)))"

section \<open>Encode\<close>

text \<open>
  One turn of the loop of \<open>Encode\<close> (lines 175 to 189) for the code found in the
  table.  \<open>bitVec\<close> is never empty: it starts with one word and only grows.
\<close>

definition encode_step :: "uint32 list \<times> int \<Rightarrow> 'f Code \<Rightarrow> uint32 list \<times> int" where
  "encode_step st code =
     (let bitVec = fst st; sz = snd st; n = sz AND 0x1F
      in if n + Size code < 0x20 then
           (bitVec[length bitVec - 1 := last bitVec OR shl (Bits code) (0x20 - n - Size code)],
            sz + Size code)
         else
           (let n' = Size code - (0x20 - n)
            in (bitVec[length bitVec - 1 := last bitVec OR shr (Bits code) n']
                  @ [shl (Bits code) (0x20 - n')],
                sz + Size code)))"

fun encode_loop :: "'f Table \<Rightarrow> uint32 list \<times> int \<Rightarrow> rune list \<Rightarrow> error + uint32 list \<times> int" where
  "encode_loop t st [] = Inr st"
| "encode_loop t st (r # s) =
     (case map_of t r of
        None \<Rightarrow> Inl (UnknownSymbol r)
      | Some code \<Rightarrow> encode_loop t (encode_step st code) s)"

definition Encode :: "'f Table \<Rightarrow> rune list \<Rightarrow> error + uint32 list \<times> int" where
  "Encode t s = (if length t = 0 then Inl EmptyTable else encode_loop t ([0], 0) s)"

section \<open>Decode\<close>

text \<open>\<open>v, bitVec = bitVec[0], bitVec[1:]\<close>; on an empty slice the index panics.\<close>

fun pop :: "uint32 list \<Rightarrow> (uint32 \<times> uint32 list) option" where
  "pop [] = None"
| "pop (w # ws) = Some (w, ws)"

text \<open>Lines 220 to 223, after \<open>i++\<close>: every 32 bits the next word is popped.\<close>

definition refill :: "int \<Rightarrow> uint32 \<Rightarrow> uint32 list \<Rightarrow> (uint32 \<times> uint32 list) option" where
  "refill i v bitVec = (if i AND 0x1F = 0 then pop bitVec else Some (v, bitVec))"

text \<open>The scan of the table (lines 226 to 237): the first entry in the order of iteration
  with \<open>code.Size == n\<close> and \<open>code.Bits == bits\<close>.\<close>

definition matching :: "'f Table \<Rightarrow> int \<Rightarrow> uint32 \<Rightarrow> (rune \<times> 'f Code) option" where
  "matching t n bits = find (\<lambda>(r, code). Size code = n \<and> Bits code = bits) t"

text \<open>
  The loop of \<open>Decode\<close> (lines 212 to 238) with the Go variables as arguments
  (\<open>sz\<close> is Go's \<open>size\<close>).  The
  result is \<open>None\<close> for a run-time panic, \<open>Some (Inl e)\<close> for the \<open>return\<close> inside
  the loop and \<open>Some (Inr (b, n))\<close> when the loop ends.
\<close>

function decode_loop ::
  "'f Table \<Rightarrow> int \<Rightarrow> uint32 \<Rightarrow> uint32 \<Rightarrow> uint32 list \<Rightarrow> int \<Rightarrow> int \<Rightarrow> rune list
   \<Rightarrow> (error + rune list \<times> int) option" where
  "decode_loop t sz bits v bitVec n i b =
     (if i < sz then
        (let bits' = push_bit 1 bits OR drop_bit 31 v;
             v' = push_bit 1 v;
             n' = n + 1
         in if n' > 32 then Some (Inl NoMatchingCode)
            else
              (let i' = i + 1
               in case refill i' v' bitVec of
                    None \<Rightarrow> None
                  | Some (v'', bitVec') \<Rightarrow>
                      (case matching t n' bits' of
                         Some (r, code) \<Rightarrow> decode_loop t sz 0 v'' bitVec' 0 i' (b @ [r])
                       | None \<Rightarrow> decode_loop t sz bits' v'' bitVec' n' i' b)))
      else Some (Inr (b, n)))"
  by pat_completeness auto
termination
  by (relation "measure (\<lambda>(t, sz, bits, v, bitVec, n, i, b). nat (sz - i))") auto

declare decode_loop.simps [simp del]

text \<open>
  \<open>Decode\<close> returns a string and an error (\<open>None\<close> for \<open>nil\<close>); the outer \<open>None\<close>
  is the panic of \<open>bitVec[0]\<close> on an empty slice.
\<close>

definition Decode :: "'f Table \<Rightarrow> uint32 list \<Rightarrow> int \<Rightarrow> (rune list \<times> error option) option" where
  "Decode t bitVec sz =
     (if int (length bitVec) \<le> quo sz 32 then Some ([], Some InvalidVector)
      else case pop bitVec of
             None \<Rightarrow> None
           | Some (v, bitVec') \<Rightarrow>
               (case decode_loop t sz 0 v bitVec' 0 0 [] of
                  None \<Rightarrow> None
                | Some (Inl e) \<Rightarrow> Some ([], Some e)
                | Some (Inr (b, n)) \<Rightarrow>
                    if n \<noteq> 0 then Some (b, Some TrailingBits) else Some (b, None)))"

section \<open>The specification's wording, as definitions\<close>

text \<open>
  The packing rule of the specification (section 4.2), word for word: with
  \<open>n = total_bits mod 32\<close> and \<open>remaining = 32 - n\<close>, a code of length at most
  \<open>remaining\<close> is shifted left by \<open>remaining - length\<close> and ORed into the last word;
  otherwise its high bits (the code shifted right by \<open>length - remaining\<close>) are ORed
  into the last word and a new word holds its low \<open>length - remaining\<close> bits in the
  most significant positions.
\<close>

definition pack_spec :: "uint32 list \<times> int \<Rightarrow> 'f Code \<Rightarrow> uint32 list \<times> int" where
  "pack_spec st code =
     (let bitVec = fst st; total_bits = snd st;
          n = total_bits mod 32; remaining = 32 - n
      in if Size code \<le> remaining then
           (bitVec[length bitVec - 1 :=
              last bitVec OR push_bit (nat (remaining - Size code)) (Bits code)],
            total_bits + Size code)
         else
           (let k = nat (Size code - remaining)
            in (bitVec[length bitVec - 1 := last bitVec OR drop_bit k (Bits code)]
                  @ [push_bit (32 - k) (take_bit k (Bits code))],
                total_bits + Size code)))"





text \<open>
  The leading \<open>m\<close> bits of a code: its bit pattern of \<open>Size\<close> bits, cut down to the
  first \<open>m\<close>.  A table is prefix-free when two distinct entries differ in their leading
  \<open>min l1 l2\<close> bits.
\<close>

definition prefix_bits :: "'f Code \<Rightarrow> int \<Rightarrow> uint32" where
  "prefix_bits c m = shr (Bits c) (Size c - m)"

definition prefix_free :: "'f Table \<Rightarrow> bool" where
  "prefix_free t =
     (\<forall>e1 \<in> set t. \<forall>e2 \<in> set t. e1 \<noteq> e2 \<longrightarrow>
        prefix_bits (snd e1) (min (Size (snd e1)) (Size (snd e2)))
          \<noteq> prefix_bits (snd e2) (min (Size (snd e1)) (Size (snd e2))))"

text \<open>
  The 34 symbols 0 to 33 with the weights 100, 99, ..., 67 (no two alike, so that the
  order after sorting is fixed), and a table with the single code \<open>0\<close>.
\<close>

definition steep34 :: "(rune \<times> real) list" where
  "steep34 =
     [(0, 100), (1, 99), (2, 98), (3, 97), (4, 96), (5, 95), (6, 94), (7, 93), (8, 92),
      (9, 91), (10, 90), (11, 89), (12, 88), (13, 87), (14, 86), (15, 85), (16, 84),
      (17, 83), (18, 82), (19, 81), (20, 80), (21, 79), (22, 78), (23, 77), (24, 76),
      (25, 75), (26, 74), (27, 73), (28, 72), (29, 71), (30, 70), (31, 69), (32, 68),
      (33, 67)]"


section \<open>Invariants of the loop of \<open>Encode\<close>\<close>

text \<open>
  \<open>len_inv\<close>: the vector has one word more than \<open>size/32\<close>.  \<open>pad_inv\<close>: the bit
  count has reached the last word, and every bit of the vector at a position from the
  bit count on is zero (position \<open>32 * i + j\<close> is bit \<open>31 - j\<close> of word \<open>i\<close>).
\<close>

definition len_inv :: "uint32 list \<times> int \<Rightarrow> bool" where
  "len_inv st = (0 \<le> snd st \<and> int (length (fst st)) = snd st div 32 + 1)"

definition pad_inv :: "uint32 list \<times> int \<Rightarrow> bool" where
  "pad_inv st =
     (fst st \<noteq> [] \<and> 32 * (int (length (fst st)) - 1) \<le> snd st \<and>
      (\<forall>i < length (fst st). \<forall>j < 32.
         snd st \<le> 32 * int i + int j \<longrightarrow> \<not> bit (fst st ! i) (31 - j)))"

section \<open>Notions used in the proofs about \<open>divide\<close>\<close>

text \<open>
  \<open>mark0\<close> and \<open>mark1\<close> are what \<open>mark\<close> does left of the pivot and from the pivot
  on.  Two codes are \<open>incomparable\<close> when they differ in their leading bits, as
  \<open>prefix_free\<close> asks.
\<close>

definition mark0 :: "'f Code \<Rightarrow> 'f Code" where
  "mark0 c = c\<lparr>Bits := push_bit 1 (Bits c), Size := Size c + 1\<rparr>"

definition mark1 :: "'f Code \<Rightarrow> 'f Code" where
  "mark1 c = c\<lparr>Bits := push_bit 1 (Bits c) OR 1, Size := Size c + 1\<rparr>"

definition incomparable :: "'f Code \<Rightarrow> 'f Code \<Rightarrow> bool" where
  "incomparable c1 c2 =
     (prefix_bits c1 (min (Size c1) (Size c2)) \<noteq> prefix_bits c2 (min (Size c1) (Size c2)))"

text \<open>A code is \<open>tidy\<close> when its bits lie within its length.\<close>

definition tidy :: "'f Code \<Rightarrow> bool" where
  "tidy c = (0 \<le> Size c \<and> take_bit (nat (Size c)) (Bits c) = Bits c)"

text \<open>\<open>under b s c\<close>: the code \<open>c\<close>, of at most 32 bits, starts with the \<open>s\<close> bits \<open>b\<close>.\<close>

definition under :: "uint32 \<Rightarrow> int \<Rightarrow> 'f Code \<Rightarrow> bool" where
  "under b s c = (s \<le> Size c \<and> Size c \<le> 32 \<and> tidy c \<and> shr (Bits c) (Size c - s) = b)"

section \<open>Notions used in the round-trip proof\<close>

text \<open>
  \<open>sbit bv p\<close> is the bit at position \<open>p\<close> of the bit stream (most significant bit of
  word 0 first) and \<open>cbit c j\<close> is bit \<open>j\<close> of the code \<open>c\<close>, counted from its
  leading bit.  \<open>laid t bv k s\<close> says that the codes of the runes \<open>s\<close> stand in the
  stream from position \<open>k\<close> on, one after the other, and \<open>endpos t k s\<close> is the position
  after the last of them.  \<open>cur bv k\<close> and \<open>rest bv k\<close> are the values of \<open>v\<close> and
  \<open>bitVec\<close> in \<open>Decode\<close> when \<open>k\<close> bits have been read.  \<open>decodes t c r\<close> says that
  the scan of the table finds nothing for a proper prefix of the code \<open>c\<close> and finds
  the rune \<open>r\<close> for the whole code.
\<close>

definition sbit :: "uint32 list \<Rightarrow> nat \<Rightarrow> bool" where
  "sbit bv p = bit (bv ! (p div 32)) (31 - p mod 32)"

definition cbit :: "'f Code \<Rightarrow> nat \<Rightarrow> bool" where
  "cbit c j = bit (Bits c) (nat (Size c) - 1 - j)"

primrec laid :: "'f Table \<Rightarrow> uint32 list \<Rightarrow> nat \<Rightarrow> rune list \<Rightarrow> bool" where
  "laid t bv k [] = True"
| "laid t bv k (r # s) =
     (case map_of t r of
        None \<Rightarrow> False
      | Some c \<Rightarrow> (\<forall>j < nat (Size c). sbit bv (k + j) = cbit c j) \<and> laid t bv (k + nat (Size c)) s)"

primrec endpos :: "'f Table \<Rightarrow> nat \<Rightarrow> rune list \<Rightarrow> nat" where
  "endpos t k [] = k"
| "endpos t k (r # s) =
     (case map_of t r of None \<Rightarrow> k | Some c \<Rightarrow> endpos t (k + nat (Size c)) s)"

definition cur :: "uint32 list \<Rightarrow> nat \<Rightarrow> uint32" where
  "cur bv k = push_bit (k mod 32) (bv ! (k div 32))"

definition rest :: "uint32 list \<Rightarrow> nat \<Rightarrow> uint32 list" where
  "rest bv k = drop (k div 32 + 1) bv"

definition decodes :: "'f Table \<Rightarrow> 'f Code \<Rightarrow> rune \<Rightarrow> bool" where
  "decodes t c r =
     ((\<forall>j. 0 < j \<and> j < nat (Size c) \<longrightarrow>
          matching t (int j) (drop_bit (nat (Size c) - j) (Bits c)) = None)
      \<and> (\<exists>c'. matching t (Size c) (Bits c) = Some (r, c')))"

section \<open>The table builder keeps symbols and probabilities\<close>

lemma mset_insert_code: "mset (insert_code fl c ds) = add_mset c (mset ds)"
  by (induction ds) simp_all

lemma mset_sort_codes: "mset (sort_codes fl codes) = mset codes"
  unfolding sort_codes_def by (induction codes) (simp_all add: mset_insert_code)

lemma set_sort_codes: "set (sort_codes fl codes) = set codes"
  using mset_sort_codes [of fl codes] by (metis set_mset_mset)

lemma length_sort_codes: "length (sort_codes fl codes) = length codes"
  using mset_sort_codes [of fl codes] by (metis size_mset)

lemma mark_all_Char_Prob:
  "map (\<lambda>c. (Char c, Prob c)) (mark_all p codes) = map (\<lambda>c. (Char c, Prob c)) codes"
proof -
  have "map (\<lambda>c. (Char c, Prob c)) (mark_all p codes)
        = map ((\<lambda>c. (Char c, Prob c)) \<circ> snd) (enumerate 0 codes)"
    by (simp add: mark_all_def mark_def Let_def comp_def case_prod_beta)
  also have "\<dots> = map (\<lambda>c. (Char c, Prob c)) (map snd (enumerate 0 codes))"
    by (simp only: map_map)
  finally show ?thesis by (simp only: map_snd_enumerate)
qed

lemma divide_Char_Prob:
  "map (\<lambda>c. (Char c, Prob c)) (divide fl codes) = map (\<lambda>c. (Char c, Prob c)) codes"
proof (induction fl codes rule: divide.induct)
  case (1 fl codes)
  show ?case
  proof (cases "length codes < 2")
    case True
    then show ?thesis by (subst divide.simps) simp
  next
    case False
    define p where "p = pivot fl codes"
    define codes' where "codes' = mark_all p codes"
    have "divide fl codes = divide fl (take p codes') @ divide fl (drop p codes')"
      using False by (subst divide.simps) (simp add: p_def codes'_def Let_def)
    then have "map (\<lambda>c. (Char c, Prob c)) (divide fl codes)
               = map (\<lambda>c. (Char c, Prob c)) (take p codes')
                 @ map (\<lambda>c. (Char c, Prob c)) (drop p codes')"
      using "1.IH" [OF False p_def codes'_def] by simp
    also have "\<dots> = map (\<lambda>c. (Char c, Prob c)) codes'"
      by (simp flip: map_append)
    finally show ?thesis
      by (simp add: codes'_def mark_all_Char_Prob)
  qed
qed

lemma BuildTable_entries:
  "map (\<lambda>(r, c). (r, Prob c)) (BuildTable fl freq)
   = map (\<lambda>c. (Char c, Prob c)) (sort_codes fl (initial_codes freq))"
proof -
  have "map (\<lambda>(r, c). (r, Prob c)) (BuildTable fl freq)
        = map (\<lambda>c. (Char c, Prob c)) (divide fl (sort_codes fl (initial_codes freq)))"
    by (simp add: BuildTable_def comp_def)
  then show ?thesis by (simp add: divide_Char_Prob)
qed

text \<open>The four ways one turn of the loop of \<open>Decode\<close> can go.\<close>

lemma decode_loop_done:
  "\<not> i < sz \<Longrightarrow> decode_loop t sz bits v bitVec n i b = Some (Inr (b, n))"
  by (subst decode_loop.simps) simp

lemma decode_loop_too_long:
  "i < sz \<Longrightarrow> 32 < n + 1 \<Longrightarrow> decode_loop t sz bits v bitVec n i b = Some (Inl NoMatchingCode)"
  by (subst decode_loop.simps) (simp add: Let_def)

lemma decode_loop_panic:
  "i < sz \<Longrightarrow> n + 1 \<le> 32 \<Longrightarrow>
   refill (i + 1) (push_bit 1 v) bitVec = None \<Longrightarrow>
   decode_loop t sz bits v bitVec n i b = None"
  by (subst decode_loop.simps) (simp add: Let_def)

lemma decode_loop_next:
  "i < sz \<Longrightarrow> n + 1 \<le> 32 \<Longrightarrow>
   refill (i + 1) (push_bit 1 v) bitVec = Some (w, ws) \<Longrightarrow>
   decode_loop t sz bits v bitVec n i b =
     (case matching t (n + 1) (push_bit 1 bits OR drop_bit 31 v) of
        Some (r, code) \<Rightarrow> decode_loop t sz 0 w ws 0 (i + 1) (b @ [r])
      | None \<Rightarrow> decode_loop t sz (push_bit 1 bits OR drop_bit 31 v) w ws (n + 1) (i + 1) b)"
  by (subst decode_loop.simps) (simp add: Let_def split: option.split)

lemma decode_loop_error:
  "decode_loop t sz bits v bitVec n i b = Some (Inl e) \<Longrightarrow> e = NoMatchingCode"
proof (induction k \<equiv> "nat (sz - i)" arbitrary: bits v bitVec n i b)
  case 0
  then have "\<not> i < sz" by simp
  with "0.prems" show ?case by (simp add: decode_loop_done)
next
  case (Suc k)
  then have less: "i < sz" by simp
  show ?case
  proof (cases "32 < n + 1")
    case True
    with less Suc.prems show ?thesis by (simp add: decode_loop_too_long)
  next
    case False
    then have n: "n + 1 \<le> 32" by simp
    show ?thesis
    proof (cases "refill (i + 1) (push_bit 1 v) bitVec")
      case None
      from decode_loop_panic [OF less n None, of t bits b] Suc.prems show ?thesis by simp
    next
      case (Some a)
      obtain w ws where a: "a = (w, ws)" by (cases a)
      have k: "k = nat (sz - (i + 1))" using Suc.hyps(2) by simp
      note step = decode_loop_next [OF less n Some [unfolded a], of t bits b]
      show ?thesis
      proof (cases "matching t (n + 1) (push_bit 1 bits OR drop_bit 31 v)")
        case None
        with step Suc.prems
        have "decode_loop t sz (push_bit 1 bits OR drop_bit 31 v) w ws (n + 1) (i + 1) b
              = Some (Inl e)" by simp
        from Suc.hyps(1) [OF k this] show ?thesis .
      next
        case (Some m)
        obtain r code where m: "m = (r, code)" by (cases m)
        with step Some Suc.prems
        have "decode_loop t sz 0 w ws 0 (i + 1) (b @ [r]) = Some (Inl e)" by simp
        from Suc.hyps(1) [OF k this] show ?thesis .
      qed
    qed
  qed
qed

section \<open>The pivot loop and the packing step against the specification's wording\<close>


lemma and_31: "(x::int) AND 0x1F = x mod 32"
proof -
  have "x AND mask 5 = take_bit 5 x" by (simp only: take_bit_eq_mask)
  then show ?thesis by (simp add: take_bit_eq_mod mask_eq_exp_minus_1)
qed

lemma push_take_word:
  "k \<le> 32 \<Longrightarrow> push_bit (32 - k) (take_bit k (w::uint32)) = push_bit (32 - k) w"
  by (rule bit_eqI) (auto simp: bit_simps)

section \<open>Runs of the loop of \<open>Decode\<close>\<close>

lemma quo_nonneg: "0 \<le> a \<Longrightarrow> quo a 32 = a div 32"
  by (cases "a = 0") (simp_all add: quo_def)



section \<open>The loop of \<open>Encode\<close> keeps its invariants\<close>

lemma encode_loop_invariant:
  assumes "encode_loop t st s = Inr st'"
    and "I st"
    and "\<And>st r code. I st \<Longrightarrow> map_of t r = Some code \<Longrightarrow> I (encode_step st code)"
  shows "I st'"
  using assms(1,2)
proof (induction s arbitrary: st)
  case Nil
  then show ?case by simp
next
  case (Cons r s)
  from Cons.prems(1) obtain code where code: "map_of t r = Some code"
    and run: "encode_loop t (encode_step st code) s = Inr st'"
    by (auto split: option.splits)
  from assms(3) [OF Cons.prems(2) code] have "I (encode_step st code)" .
  from Cons.IH [OF run this] show ?case .
qed

lemma div32_split: "(sz + l) div 32 = sz div 32 + (sz mod 32 + l) div (32::int)"
proof -
  have "sz + l = (sz mod 32 + l) + sz div 32 * 32" by simp
  then have "(sz + l) div 32 = ((sz mod 32 + l) + sz div 32 * 32) div 32" by simp
  also have "\<dots> = sz div 32 + (sz mod 32 + l) div 32"
    by (simp only: div_mult_self1 [of 32 "sz mod 32 + l" "sz div 32", simplified])
  finally show ?thesis .
qed

lemma div32_same: "0 \<le> (l::int) \<Longrightarrow> sz mod 32 + l < 32 \<Longrightarrow> (sz + l) div 32 = sz div 32"
  using div32_split [of sz l] by (simp add: div_pos_pos_trivial)

lemma div32_next:
  "(l::int) \<le> 32 \<Longrightarrow> 32 \<le> sz mod 32 + l \<Longrightarrow> (sz + l) div 32 = sz div 32 + 1"
proof -
  assume a: "l \<le> 32" "32 \<le> sz mod 32 + l"
  have "sz mod 32 < 32" by simp
  with a have "(sz mod 32 + l) div 32 = 1"
    by (intro int_div_pos_eq [of _ 32 1 "sz mod 32 + l - 32"]) simp_all
  with div32_split [of sz l] show ?thesis by simp
qed

lemma int32_le: "32 * a \<le> 32 * b + j \<Longrightarrow> j < 32 \<Longrightarrow> a \<le> (b::int)"
proof (rule ccontr)
  assume a: "32 * a \<le> 32 * b + j" "j < 32" "\<not> a \<le> b"
  then have "b + 1 \<le> a" by simp
  then have "32 * (b + 1) \<le> 32 * a" by simp
  with a show False by simp
qed

lemma len_inv_step:
  assumes "len_inv st" and "0 \<le> Size code" and "Size code \<le> 32"
  shows "len_inv (encode_step st code)"
proof (cases "snd st mod 32 + Size code < 32")
  case True
  with assms show ?thesis
    by (simp add: len_inv_def encode_step_def Let_def and_31 div32_same)
next
  case False
  with assms show ?thesis
    by (simp add: len_inv_def encode_step_def Let_def and_31 div32_next)
qed

lemma encode_step_snd: "snd (encode_step st code) = snd st + Size code"
  by (simp add: encode_step_def Let_def)

lemma encode_step_nonempty: "fst st \<noteq> [] \<Longrightarrow> fst (encode_step st code) \<noteq> []"
  by (simp add: encode_step_def Let_def)

lemma pad_inv_step:
  assumes inv: "pad_inv (bv, sz)" and size: "0 \<le> Size code"
  shows "pad_inv (encode_step (bv, sz) code)"
proof -
  define n where "n = sz mod 32"
  define q where "q = sz div 32"
  define len where "len = length bv"
  have sz: "sz = 32 * q + n" and n: "0 \<le> n" "n < 32" by (simp_all add: n_def q_def)
  from inv have ne: "bv \<noteq> []" and low: "32 * (int len - 1) \<le> sz"
    and zero: "\<And>i j. i < len \<Longrightarrow> j < 32 \<Longrightarrow> sz \<le> 32 * int i + int j \<Longrightarrow> \<not> bit (bv ! i) (31 - j)"
    by (simp_all add: pad_inv_def len_def)
  from ne have len: "0 < len" by (simp add: len_def)
  have q: "int len - 1 \<le> q"
    using low n(2) unfolding sz by (rule int32_le)
  have last: "last bv = bv ! (len - 1)" using ne by (simp add: last_conv_nth len_def)
  show ?thesis
  proof (cases "n + Size code < 32")
    case fits: True
    define k where "k = nat (32 - n - Size code)"
    have k: "int k = 32 - n - Size code" using fits by (simp add: k_def)
    have step: "encode_step (bv, sz) code
                = (bv[len - 1 := last bv OR push_bit k (Bits code)], sz + Size code)"
      using fits by (simp add: encode_step_def Let_def and_31 shl_def n_def k_def len_def)
    have bits: "\<not> bit (bv[len - 1 := last bv OR push_bit k (Bits code)] ! i) (31 - j)"
      if i: "i < len" and j: "j < 32" and pos: "sz + Size code \<le> 32 * int i + int j" for i j
    proof -
      have "32 * (int len - 1) \<le> 32 * int i + int j" using pos low size by linarith
      moreover have "int j < 32" using j by simp
      ultimately have "int i \<ge> int len - 1" by (rule int32_le)
      with i have i_eq: "i = len - 1" by linarith
      have old: "\<not> bit (last bv) (31 - j)"
        unfolding last i_eq [symmetric] using pos size by (intro zero i j) linarith
      have "\<not> bit (push_bit k (Bits code)) (31 - j)"
      proof
        assume "bit (push_bit k (Bits code)) (31 - j)"
        then have "k \<le> 31 - j" by (simp add: bit_simps)
        then have "int k \<le> 31 - int j" using j by linarith
        with k pos sz q i_eq len show False by linarith
      qed
      with old show ?thesis using i by (simp add: i_eq len_def bit_simps)
    qed
    show ?thesis
      unfolding pad_inv_def step fst_conv snd_conv
    proof (intro conjI allI impI)
      show "bv[len - 1 := last bv OR push_bit k (Bits code)] \<noteq> []" using ne by simp
      show "32 * (int (length (bv[len - 1 := last bv OR push_bit k (Bits code)])) - 1)
            \<le> sz + Size code"
        using low size by (simp add: len_def)
      fix i j
      assume "i < length (bv[len - 1 := last bv OR push_bit k (Bits code)])" "j < 32"
        "sz + Size code \<le> 32 * int i + int j"
      then show "\<not> bit (bv[len - 1 := last bv OR push_bit k (Bits code)] ! i) (31 - j)"
        by (intro bits) (simp_all add: len_def)
    qed
  next
    case spans: False
    define n' where "n' = Size code - (32 - n)"
    have n': "0 \<le> n'" using spans by (simp add: n'_def)
    have step: "encode_step (bv, sz) code
                = (bv[len - 1 := last bv OR shr (Bits code) n'] @ [shl (Bits code) (32 - n')],
                   sz + Size code)"
      using spans by (simp add: encode_step_def Let_def and_31 n_def n'_def len_def)
    have low': "32 * int len \<le> sz + Size code" using spans sz q by linarith
    have bits: "\<not> bit ((bv[len - 1 := last bv OR shr (Bits code) n'] @ [shl (Bits code) (32 - n')]) ! i)
            (31 - j)"
      if i: "i < len + 1" and j: "j < 32" and pos: "sz + Size code \<le> 32 * int i + int j" for i j
    proof -
      have "32 * int len \<le> 32 * int i + int j" using pos low' by linarith
      moreover have "int j < 32" using j by simp
      ultimately have "int i \<ge> int len" by (rule int32_le)
      with i have i_eq: "i = len" by linarith
      have "\<not> bit (shl (Bits code) (32 - n')) (31 - j)"
      proof
        assume b: "bit (shl (Bits code) (32 - n')) (31 - j)"
        then have le: "n' \<le> 32" by (auto simp: shl_def split: if_splits)
        with b have "nat (32 - n') \<le> 31 - j" by (simp add: shl_def bit_simps)
        then have "32 - n' \<le> 31 - int j" using j le by linarith
        with pos sz q i_eq n'_def show False by linarith
      qed
      then show ?thesis by (simp add: i_eq len_def nth_append)
    qed
    show ?thesis
      unfolding pad_inv_def step fst_conv snd_conv
    proof (intro conjI allI impI)
      show "bv[len - 1 := last bv OR shr (Bits code) n'] @ [shl (Bits code) (32 - n')] \<noteq> []"
        by simp
      show "32 * (int (length (bv[len - 1 := last bv OR shr (Bits code) n']
                @ [shl (Bits code) (32 - n')])) - 1) \<le> sz + Size code"
        using low' by (simp add: len_def)
      fix i j
      assume "i < length (bv[len - 1 := last bv OR shr (Bits code) n'] @ [shl (Bits code) (32 - n')])"
        "j < 32" "sz + Size code \<le> 32 * int i + int j"
      then show "\<not> bit ((bv[len - 1 := last bv OR shr (Bits code) n']
                   @ [shl (Bits code) (32 - n')]) ! i) (31 - j)"
        by (intro bits) (simp_all add: len_def)
    qed
  qed
qed

section \<open>The codes that \<open>divide\<close> builds\<close>

lemma length_mark_all [simp]: "length (mark_all p codes) = length codes"
  by (simp add: mark_all_def)

lemma nth_mark_all: "i < length codes \<Longrightarrow> mark_all p codes ! i = mark p i (codes ! i)"
  by (simp add: mark_all_def nth_enumerate_eq)

lemma take_mark_all: "take p (mark_all p codes) = map mark0 (take p codes)"
  by (rule nth_equalityI) (simp_all add: nth_mark_all mark_def mark0_def Let_def)

lemma drop_mark_all: "drop p (mark_all p codes) = map mark1 (drop p codes)"
  by (rule nth_equalityI) (simp_all add: nth_mark_all mark_def mark1_def Let_def)

lemma length_divide [simp]: "length (divide fl codes) = length codes"
proof -
  have "length (map (\<lambda>c. (Char c, Prob c)) (divide fl codes))
        = length (map (\<lambda>c. (Char c, Prob c)) codes)"
    by (simp only: divide_Char_Prob)
  then show ?thesis by simp
qed

lemma divide_small: "length codes < 2 \<Longrightarrow> divide fl codes = codes"
  by (subst divide.simps) simp

lemma divide_split:
  "2 \<le> length codes \<Longrightarrow>
   divide fl codes = divide fl (map mark0 (take (pivot fl codes) codes))
                  @ divide fl (map mark1 (drop (pivot fl codes) codes))"
  by (subst divide.simps) (simp add: Let_def take_mark_all drop_mark_all)

lemma shr_shr: "0 \<le> j \<Longrightarrow> 0 \<le> k \<Longrightarrow> shr (shr x j) k = shr x (j + k)"
  by (simp add: shr_def drop_bit_drop_bit nat_add_distrib add.commute)

lemma shr_0 [simp]: "shr x 0 = x"
  by (simp add: shr_def)

lemma bit_shift1: "bit (push_bit 1 (b::uint32)) k \<longleftrightarrow> 0 < k \<and> k < 32 \<and> bit b (k - 1)"
proof -
  have "bit (push_bit 1 b) k \<longleftrightarrow> 1 \<le> k \<and> possible_bit TYPE(uint32) k \<and> bit b (k - 1)"
    by (rule bit_push_bit_iff)
  then show ?thesis by (auto simp: possible_bit_word)
qed

lemma bit_one_word: "bit (1::uint32) k \<longleftrightarrow> k = 0"
  by (simp add: bit_1_iff)

lemma bit_mark0: "bit (Bits (mark0 c)) k \<longleftrightarrow> 0 < k \<and> k < 32 \<and> bit (Bits c) (k - 1)"
proof -
  have "Bits (mark0 c) = push_bit 1 (Bits c)" by (simp add: mark0_def)
  then show ?thesis by (simp only: bit_shift1)
qed

lemma bit_mark1: "bit (Bits (mark1 c)) k \<longleftrightarrow> k = 0 \<or> 0 < k \<and> k < 32 \<and> bit (Bits c) (k - 1)"
proof -
  have "Bits (mark1 c) = push_bit 1 (Bits c) OR 1" by (simp add: mark1_def)
  then show ?thesis by (simp only: bit_or_iff bit_shift1 bit_one_word) blast
qed

lemma Size_mark [simp]: "Size (mark0 c) = Size c + 1" "Size (mark1 c) = Size c + 1"
  by (simp_all add: mark0_def mark1_def)

lemma Char_mark [simp]: "Char (mark0 c) = Char c" "Char (mark1 c) = Char c"
  by (simp_all add: mark0_def mark1_def)

lemma tidy_bit: "tidy c \<Longrightarrow> bit (Bits c) k \<Longrightarrow> int k < Size c"
proof -
  assume "tidy c" and b: "bit (Bits c) k"
  then have "bit (take_bit (nat (Size c)) (Bits c)) k" and "0 \<le> Size c" by (simp_all add: tidy_def)
  then have "k < nat (Size c)" by (simp add: bit_take_bit_iff)
  then show ?thesis by simp
qed

lemma tidyI: "0 \<le> Size c \<Longrightarrow> (\<And>k. bit (Bits c) k \<Longrightarrow> int k < Size c) \<Longrightarrow> tidy c"
  unfolding tidy_def
proof (intro conjI bit_eqI)
  fix k
  assume "0 \<le> Size c" and r: "\<And>k. bit (Bits c) k \<Longrightarrow> int k < Size c"
  show "bit (take_bit (nat (Size c)) (Bits c)) k = bit (Bits c) k"
    using r [of k] by (auto simp: bit_take_bit_iff)
qed

lemma tidy_mark0: "tidy c \<Longrightarrow> tidy (mark0 c)"
proof (rule tidyI)
  assume t: "tidy c"
  then show "0 \<le> Size (mark0 c)" by (simp add: tidy_def)
  fix k assume "bit (Bits (mark0 c)) k"
  then have "0 < k" "bit (Bits c) (k - 1)" by (simp_all add: bit_mark0)
  with tidy_bit [OF t this(2)] show "int k < Size (mark0 c)" by simp
qed

lemma tidy_mark1: "tidy c \<Longrightarrow> tidy (mark1 c)"
proof (rule tidyI)
  assume t: "tidy c"
  then show z: "0 \<le> Size (mark1 c)" by (simp add: tidy_def)
  fix k assume "bit (Bits (mark1 c)) k"
  then consider "k = 0" | "0 < k" "bit (Bits c) (k - 1)" by (auto simp: bit_mark1)
  then show "int k < Size (mark1 c)"
  proof cases
    case 1
    with t show ?thesis by (simp add: tidy_def)
  next
    case 2
    with tidy_bit [OF t 2(2)] show ?thesis by simp
  qed
qed

lemma shr_mark0: "tidy c \<Longrightarrow> Size c < 32 \<Longrightarrow> shr (Bits (mark0 c)) 1 = Bits c"
proof (rule bit_eqI)
  fix k
  assume t: "tidy c" and s: "Size c < 32"
  have "bit (shr (Bits (mark0 c)) 1) k \<longleftrightarrow> bit (Bits (mark0 c)) (Suc k)"
    by (simp add: shr_def bit_drop_bit_eq)
  also have "\<dots> \<longleftrightarrow> Suc k < 32 \<and> bit (Bits c) k" by (simp add: bit_mark0)
  also have "\<dots> \<longleftrightarrow> bit (Bits c) k" using tidy_bit [OF t, of k] s by auto
  finally show "bit (shr (Bits (mark0 c)) 1) k = bit (Bits c) k" .
qed

lemma shr_mark1: "tidy c \<Longrightarrow> Size c < 32 \<Longrightarrow> shr (Bits (mark1 c)) 1 = Bits c"
proof (rule bit_eqI)
  fix k
  assume t: "tidy c" and s: "Size c < 32"
  have "bit (shr (Bits (mark1 c)) 1) k \<longleftrightarrow> bit (Bits (mark1 c)) (Suc k)"
    by (simp add: shr_def bit_drop_bit_eq)
  also have "\<dots> \<longleftrightarrow> Suc k < 32 \<and> bit (Bits c) k" by (simp add: bit_mark1)
  also have "\<dots> \<longleftrightarrow> bit (Bits c) k" using tidy_bit [OF t, of k] s by auto
  finally show "bit (shr (Bits (mark1 c)) 1) k = bit (Bits c) k" .
qed

lemma mark0_neq_mark1: "Bits c = Bits c' \<Longrightarrow> Bits (mark0 c) \<noteq> Bits (mark1 c')"
proof
  assume "Bits (mark0 c) = Bits (mark1 c')"
  then have "bit (Bits (mark0 c)) 0 = bit (Bits (mark1 c')) 0" by simp
  then show False by (simp add: bit_mark0 bit_mark1)
qed


lemma incomparable_sym: "incomparable c1 c2 \<Longrightarrow> incomparable c2 c1"
  by (simp add: incomparable_def min.commute)

lemma under_incomparable:
  assumes "under b1 s c1" and "under b2 s c2" and "b1 \<noteq> b2"
  shows "incomparable c1 c2"
  unfolding incomparable_def prefix_bits_def
proof
  let ?m = "min (Size c1) (Size c2)"
  assume eq: "shr (Bits c1) (Size c1 - ?m) = shr (Bits c2) (Size c2 - ?m)"
  from assms have m: "s \<le> ?m" "?m \<le> Size c1" "?m \<le> Size c2" by (simp_all add: under_def)
  have "shr (shr (Bits c1) (Size c1 - ?m)) (?m - s) = shr (Bits c1) (Size c1 - s)"
    using m by (subst shr_shr) simp_all
  moreover have "shr (shr (Bits c2) (Size c2 - ?m)) (?m - s) = shr (Bits c2) (Size c2 - s)"
    using m by (subst shr_shr) simp_all
  ultimately have "shr (Bits c1) (Size c1 - s) = shr (Bits c2) (Size c2 - s)"
    using eq by simp
  with assms show False by (simp add: under_def)
qed

lemma under_step:
  assumes "under b' (s + 1) c" and "shr b' 1 = b"
  shows "under b s c"
proof -
  from assms(1) have "0 \<le> Size c - (s + 1)" by (simp add: under_def)
  then have "shr (shr (Bits c) (Size c - (s + 1))) 1 = shr (Bits c) (Size c - s)"
    by (subst shr_shr) simp_all
  with assms show ?thesis by (simp add: under_def)
qed

lemma divide_codes:
  assumes "\<forall>c \<in> set codes. Bits c = b \<and> Size c = s \<and> tidy c"
    and "\<forall>c \<in> set (divide fl codes). Size c \<le> 32"
  shows "(\<forall>c \<in> set (divide fl codes). under b s c)
         \<and> (\<forall>i j. i < j \<longrightarrow> j < length codes \<longrightarrow> incomparable (divide fl codes ! i) (divide fl codes ! j))
         \<and> (2 \<le> length codes \<longrightarrow> (\<forall>c \<in> set (divide fl codes). s < Size c))"
  using assms
proof (induction "length codes" arbitrary: codes b s rule: less_induct)
  case less
  show ?case
  proof (cases "length codes < 2")
    case True
    then have small: "divide fl codes = codes" by (rule divide_small)
    have "under b s c" if "c \<in> set codes" for c
      using that less.prems by (auto simp: under_def small)
    moreover from True have "\<not> (i < j \<and> j < length codes)" for i j :: nat by linarith
    ultimately show ?thesis using True by (auto simp: small)
  next
    case False
    then have two: "2 \<le> length codes" by simp
    define p where "p = pivot fl codes"
    define L where "L = map mark0 (take p codes)"
    define R where "R = map mark1 (drop p codes)"
    from pivot_bounds [OF two] have p: "1 \<le> p" "p < length codes" by (simp_all add: p_def)
    have out: "divide fl codes = divide fl L @ divide fl R"
      using divide_split [OF two] by (simp add: p_def L_def R_def)
    have lenL: "length L = p" and lenR: "length R = length codes - p"
      using p by (simp_all add: L_def R_def)
    from two obtain c0 where c0: "c0 \<in> set codes" by (cases codes) auto
    with less.prems(1) have c0_facts: "Bits c0 = b" "Size c0 = s" "tidy c0" by auto
    define bL where "bL = Bits (mark0 c0)"
    define bR where "bR = Bits (mark1 c0)"
    have allL: "\<forall>c \<in> set L. Bits c = bL \<and> Size c = s + 1 \<and> tidy c"
    proof
      fix c assume "c \<in> set L"
      then obtain c' where c': "c' \<in> set codes" "c = mark0 c'"
        by (auto simp: L_def dest: in_set_takeD)
      with less.prems(1) have "Bits c' = b" "Size c' = s" "tidy c'" by auto
      with c0_facts c'(2) show "Bits c = bL \<and> Size c = s + 1 \<and> tidy c"
        by (simp add: bL_def tidy_mark0) (simp add: mark0_def)
    qed
    have allR: "\<forall>c \<in> set R. Bits c = bR \<and> Size c = s + 1 \<and> tidy c"
    proof
      fix c assume "c \<in> set R"
      then obtain c' where c': "c' \<in> set codes" "c = mark1 c'"
        by (auto simp: R_def dest: in_set_dropD)
      with less.prems(1) have "Bits c' = b" "Size c' = s" "tidy c'" by auto
      with c0_facts c'(2) show "Bits c = bR \<and> Size c = s + 1 \<and> tidy c"
        by (simp add: bR_def tidy_mark1) (simp add: mark1_def)
    qed
    have sizeL: "\<forall>c \<in> set (divide fl L). Size c \<le> 32" and sizeR: "\<forall>c \<in> set (divide fl R). Size c \<le> 32"
      using less.prems(2) by (simp_all add: out)
    have "length L < length codes" using p lenL by simp
    from less.hyps [OF this allL sizeL]
    have underL: "\<forall>c \<in> set (divide fl L). under bL (s + 1) c"
      and incL: "\<And>i j. i < j \<Longrightarrow> j < length L \<Longrightarrow> incomparable (divide fl L ! i) (divide fl L ! j)"
      by blast+
    have "length R < length codes" using p lenR by simp
    from less.hyps [OF this allR sizeR]
    have underR: "\<forall>c \<in> set (divide fl R). under bR (s + 1) c"
      and incR: "\<And>i j. i < j \<Longrightarrow> j < length R \<Longrightarrow> incomparable (divide fl R ! i) (divide fl R ! j)"
      by blast+
    have "divide fl L \<noteq> []" using p lenL by (metis length_divide length_0_conv not_one_le_zero)
    then obtain c1 where "c1 \<in> set (divide fl L)" by (cases "divide fl L") auto
    with underL have "s + 1 \<le> 32" by (auto simp: under_def)
    then have s32: "s < 32" by simp
    have shrL: "shr bL 1 = b" and shrR: "shr bR 1 = b"
      using c0_facts s32 by (simp_all add: bL_def bR_def shr_mark0 shr_mark1)
    have neq: "bL \<noteq> bR" unfolding bL_def bR_def by (rule mark0_neq_mark1) simp
    have under_all: "under b s c" if "c \<in> set (divide fl codes)" for c
    proof -
      from that consider "c \<in> set (divide fl L)" | "c \<in> set (divide fl R)" by (auto simp: out)
      then show ?thesis
      proof cases
        case 1
        with underL have "under bL (s + 1) c" by blast
        then show ?thesis using shrL by (rule under_step)
      next
        case 2
        with underR have "under bR (s + 1) c" by blast
        then show ?thesis using shrR by (rule under_step)
      qed
    qed
    have inc: "incomparable (divide fl codes ! i) (divide fl codes ! j)"
      if ij: "i < j" "j < length codes" for i j
    proof -
      consider (left) "j < p" | (right) "p \<le> i" | (cross) "i < p" "p \<le> j" by linarith
      then show ?thesis
      proof cases
        case left
        with ij have "incomparable (divide fl L ! i) (divide fl L ! j)" by (intro incL) (simp_all add: lenL)
        with left ij show ?thesis by (simp add: out nth_append lenL)
      next
        case right
        with ij have "incomparable (divide fl R ! (i - p)) (divide fl R ! (j - p))"
          by (intro incR) (simp_all add: lenR)
        with right ij show ?thesis by (simp add: out nth_append lenL)
      next
        case cross
        have "divide fl L ! i \<in> set (divide fl L)" using cross by (simp add: lenL)
        with underL have u1: "under bL (s + 1) (divide fl L ! i)" by blast
        have "divide fl R ! (j - p) \<in> set (divide fl R)" using cross ij by (simp add: lenR)
        with underR have u2: "under bR (s + 1) (divide fl R ! (j - p))" by blast
        from under_incomparable [OF u1 u2 neq] cross show ?thesis
          by (simp add: out nth_append lenL)
      qed
    qed
    have "s < Size c" if "c \<in> set (divide fl codes)" for c
    proof -
      from that consider "c \<in> set (divide fl L)" | "c \<in> set (divide fl R)" by (auto simp: out)
      then show ?thesis using underL underR by cases (auto simp: under_def)
    qed
    with under_all inc show ?thesis by blast
  qed
qed


lemma divide_size_bound:
  assumes "\<forall>c \<in> set codes. Size c = s"
  shows "\<forall>c \<in> set (divide fl codes). Size c \<le> s + int (length codes) - 1"
  using assms
proof (induction "length codes" arbitrary: codes s rule: less_induct)
  case less
  show ?case
  proof (cases "length codes < 2")
    case True
    then have "divide fl codes = codes" by (rule divide_small)
    moreover have "0 < length codes" if "c \<in> set codes" for c using that by (cases codes) auto
    ultimately show ?thesis using less.prems by fastforce
  next
    case False
    then have two: "2 \<le> length codes" by simp
    define p where "p = pivot fl codes"
    define L where "L = map mark0 (take p codes)"
    define R where "R = map mark1 (drop p codes)"
    from pivot_bounds [OF two] have p: "1 \<le> p" "p < length codes" by (simp_all add: p_def)
    have out: "divide fl codes = divide fl L @ divide fl R"
      using divide_split [OF two] by (simp add: p_def L_def R_def)
    have lenL: "length L = p" and lenR: "length R = length codes - p"
      using p by (simp_all add: L_def R_def)
    have allL: "\<forall>c \<in> set L. Size c = s + 1"
      using less.prems by (auto simp: L_def dest: in_set_takeD)
    have allR: "\<forall>c \<in> set R. Size c = s + 1"
      using less.prems by (auto simp: R_def dest: in_set_dropD)
    have "length L < length codes" using p lenL by simp
    from less.hyps [OF this allL]
    have bL: "\<forall>c \<in> set (divide fl L). Size c \<le> s + 1 + int p - 1" by (simp add: lenL)
    have "length R < length codes" using p lenR by simp
    from less.hyps [OF this allR]
    have bR: "\<forall>c \<in> set (divide fl R). Size c \<le> s + 1 + int (length codes - p) - 1"
      by (simp add: lenR)
    show ?thesis
    proof
      fix c assume "c \<in> set (divide fl codes)"
      then consider "c \<in> set (divide fl L)" | "c \<in> set (divide fl R)" by (auto simp: out)
      then show "Size c \<le> s + int (length codes) - 1"
      proof cases
        case 1
        with bL have "Size c \<le> s + 1 + int p - 1" by blast
        with p show ?thesis by linarith
      next
        case 2
        with bR have "Size c \<le> s + 1 + int (length codes - p) - 1" by blast
        with p show ?thesis by linarith
      qed
    qed
  qed
qed

lemma sorted_initial_codes:
  "\<forall>c \<in> set (sort_codes fl (initial_codes freq)). Bits c = 0 \<and> Size c = 0 \<and> tidy c"
  by (auto simp: set_sort_codes initial_codes_def tidy_def)

lemma length_sorted_initial_codes [simp]: "length (sort_codes fl (initial_codes freq)) = length freq"
  by (simp add: length_sort_codes initial_codes_def)

lemma BuildTable_sizes:
  assumes "length freq \<le> 33" and "(r, c) \<in> set (BuildTable fl freq)"
  shows "Size c \<le> 32"
proof -
  from assms(2) have c: "c \<in> set (divide fl (sort_codes fl (initial_codes freq)))"
    by (auto simp: BuildTable_def)
  have "\<forall>c \<in> set (sort_codes fl (initial_codes freq)). Size c = 0"
    using sorted_initial_codes by blast
  from divide_size_bound [OF this] c
  have "Size c \<le> int (length freq) - 1" by simp
  with assms(1) show ?thesis by simp
qed

lemma BuildTable_entry:
  assumes "\<forall>(r, c) \<in> set (BuildTable fl freq). Size c \<le> 32" and "(r, c) \<in> set (BuildTable fl freq)"
  shows "Char c = r \<and> tidy c \<and> Size c \<le> 32 \<and> (2 \<le> length freq \<longrightarrow> 0 < Size c)"
proof -
  let ?codes = "sort_codes fl (initial_codes freq)"
  from assms(1) have sizes: "\<forall>c \<in> set (divide fl ?codes). Size c \<le> 32"
    by (auto simp: BuildTable_def)
  from assms(2) have c: "c \<in> set (divide fl ?codes)" "Char c = r"
    by (auto simp: BuildTable_def)
  from divide_codes [OF sorted_initial_codes sizes] c(1)
  have "under 0 0 c" and "2 \<le> length freq \<longrightarrow> 0 < Size c" by auto
  with c(2) show ?thesis by (simp add: under_def)
qed

lemma BuildTable_prefix_free:
  assumes "\<forall>(r, c) \<in> set (BuildTable fl freq). Size c \<le> 32"
  shows "prefix_free (BuildTable fl freq)"
proof -
  let ?codes = "sort_codes fl (initial_codes freq)"
  from assms have sizes: "\<forall>c \<in> set (divide fl ?codes). Size c \<le> 32"
    by (auto simp: BuildTable_def)
  from divide_codes [OF sorted_initial_codes sizes]
  have inc: "\<And>i j. i < j \<Longrightarrow> j < length freq \<Longrightarrow> incomparable (divide fl ?codes ! i) (divide fl ?codes ! j)"
    by simp
  have "incomparable (snd e1) (snd e2)"
    if "e1 \<in> set (BuildTable fl freq)" "e2 \<in> set (BuildTable fl freq)" "e1 \<noteq> e2" for e1 e2
  proof -
    from that(1) obtain i where i: "i < length freq" "e1 = (Char (divide fl ?codes ! i), divide fl ?codes ! i)"
      by (auto simp: BuildTable_def in_set_conv_nth)
    from that(2) obtain j where j: "j < length freq" "e2 = (Char (divide fl ?codes ! j), divide fl ?codes ! j)"
      by (auto simp: BuildTable_def in_set_conv_nth)
    from that(3) i j have "i \<noteq> j" by auto
    then consider "i < j" | "j < i" by linarith
    then show ?thesis
    proof cases
      case 1
      from inc [OF this j(1)] i j show ?thesis by simp
    next
      case 2
      from inc [OF this i(1)] i j show ?thesis by (simp add: incomparable_sym)
    qed
  qed
  then show ?thesis by (simp add: prefix_free_def incomparable_def)
qed

section \<open>\<open>Decode\<close> reads back what \<open>Encode\<close> wrote\<close>

lemma sbit_at: "o' < 32 \<Longrightarrow> sbit bv (32 * q + o') = bit (bv ! q) (31 - o')"
  by (simp add: sbit_def)

lemma encode_step_nat:
  assumes "length bv = q + 1" and "sz = int (32 * q + n)" and "n < 32"
    and "Size c = int L" and "L \<le> 32"
  shows "encode_step (bv, sz) c =
           (if n + L < 32
            then (bv[q := bv ! q OR push_bit (32 - n - L) (Bits c)], int (32 * q + n + L))
            else (bv[q := bv ! q OR drop_bit (n + L - 32) (Bits c)]
                    @ [push_bit (64 - n - L) (Bits c)], int (32 * q + n + L)))"
proof -
  have "sz mod 32 = int n"
    using assms(2,3) by (simp add: zmod_int)
  then have a31: "sz AND 0x1F = int n" by (simp add: and_31)
  have last: "last bv = bv ! q" using assms(1) by (cases bv rule: rev_cases) (auto simp: nth_append)
  have len: "length bv - 1 = q" using assms(1) by simp
  have sz': "sz + int L = int (32 * q + n + L)" using assms(2) by simp
  have step: "encode_step (bv, sz) c =
     (if int n + int L < 32
      then (bv[q := bv ! q OR shl (Bits c) (32 - int n - int L)], int (32 * q + n + L))
      else (bv[q := bv ! q OR shr (Bits c) (int L - (32 - int n))]
              @ [shl (Bits c) (32 - (int L - (32 - int n)))], int (32 * q + n + L)))"
    unfolding encode_step_def Let_def fst_conv snd_conv a31 assms(4) last len sz' ..
  show ?thesis
  proof (cases "n + L < 32")
    case True
    then have "shl (Bits c) (32 - int n - int L) = push_bit (32 - n - L) (Bits c)"
      by (simp add: shl_def nat_diff_distrib')
    with True show ?thesis unfolding step by simp
  next
    case False
    then have "nat (int L - (32 - int n)) = n + L - 32" by linarith
    with False have a: "shr (Bits c) (int L - (32 - int n)) = drop_bit (n + L - 32) (Bits c)"
      by (simp add: shr_def)
    from False assms(3,5) have "nat (32 - (int L - (32 - int n))) = 64 - n - L" by linarith
    moreover from False assms(3,5) have "\<not> 32 - (int L - (32 - int n)) < 0" by linarith
    ultimately have b: "shl (Bits c) (32 - (int L - (32 - int n))) = push_bit (64 - n - L) (Bits c)"
      by (simp only: shl_def if_False)
    from False have "\<not> int n + int L < 32" by linarith
    with False show ?thesis unfolding step a b by (simp only: if_False)
  qed
qed

lemma tidy_high: "tidy c \<Longrightarrow> nat (Size c) \<le> k \<Longrightarrow> \<not> bit (Bits c) k"
  using tidy_bit [of c k] by auto

lemma encode_step_bits:
  assumes len: "length bv = q + 1" and sz: "sz = int (32 * q + n)" and n: "n < 32"
    and size: "Size c = int L" and L: "L \<le> 32" and tidy: "tidy c"
    and pad: "\<And>j. n \<le> j \<Longrightarrow> j < 32 \<Longrightarrow> \<not> bit (bv ! q) (31 - j)"
    and step: "encode_step (bv, sz) c = (bv', sz')"
  shows "(\<forall>p < 32 * q + n. sbit bv' p = sbit bv p)
         \<and> (\<forall>j < L. sbit bv' (32 * q + n + j) = cbit c j)"
proof -
  have high: "\<not> bit (Bits c) k" if "L \<le> k" for k
    using tidy_high [OF tidy, of k] that size by simp
  have cbit: "cbit c j = bit (Bits c) (L - 1 - j)" for j
    by (simp add: cbit_def size)
  have pos: "(32 * q + n + j) div 32 = q + (n + j) div 32" "(32 * q + n + j) mod 32 = (n + j) mod 32" for j
    by (simp_all add: add.assoc)
  show ?thesis
  proof (cases "n + L < 32")
    case fits: True
    define w where "w = bv ! q OR push_bit (32 - n - L) (Bits c)"
    have bv': "bv' = bv[q := w]"
      using encode_step_nat [OF len sz n size L] step fits by (simp add: w_def)
    have old: "sbit bv' p = sbit bv p" if "p < 32 * q + n" for p
    proof (cases "p div 32 = q")
      case False
      then show ?thesis by (simp add: sbit_def bv')
    next
      case True
      then have o: "p mod 32 < n" using that by (metis add_less_cancel_left mult_div_mod_eq)
      have "\<not> bit (push_bit (32 - n - L) (Bits c)) (31 - p mod 32)"
      proof
        assume "bit (push_bit (32 - n - L) (Bits c)) (31 - p mod 32)"
        then have "bit (Bits c) (31 - p mod 32 - (32 - n - L))" by (simp add: bit_push_bit_iff)
        moreover have "L \<le> 31 - p mod 32 - (32 - n - L)" using o fits by linarith
        ultimately show False using high by blast
      qed
      then show ?thesis using True len by (simp add: sbit_def bv' w_def bit_or_iff)
    qed
    have new: "sbit bv' (32 * q + n + j) = cbit c j" if "j < L" for j
    proof -
      from that fits have j: "n + j < 32" by simp
      then have "sbit bv' (32 * q + n + j) = bit w (31 - (n + j))"
        using len by (simp add: sbit_def pos bv')
      also have "\<dots> = bit (push_bit (32 - n - L) (Bits c)) (31 - (n + j))"
        using pad [of "n + j"] j by (simp add: w_def bit_or_iff)
      also have "\<dots> = bit (Bits c) (31 - (n + j) - (32 - n - L))"
      proof -
        have "32 - (n + L) \<le> 31 - (n + j)" using that fits by linarith
        moreover have "31 - (n + j) < 32" by linarith
        ultimately show ?thesis by (simp add: bit_push_bit_iff possible_bit_word)
      qed
      also have "31 - (n + j) - (32 - n - L) = L - 1 - j" using that fits by linarith
      finally show ?thesis by (simp add: cbit)
    qed
    from old new show ?thesis by blast
  next
    case spans: False
    define w where "w = bv ! q OR drop_bit (n + L - 32) (Bits c)"
    define w' where "w' = push_bit (64 - n - L) (Bits c)"
    have bv': "bv' = bv[q := w] @ [w']"
      using encode_step_nat [OF len sz n size L] step spans by (simp add: w_def w'_def)
    have old: "sbit bv' p = sbit bv p" if "p < 32 * q + n" for p
    proof -
      have pq: "p div 32 \<le> q" using that n by linarith
      show ?thesis
      proof (cases "p div 32 = q")
        case False
        with pq show ?thesis using len by (simp add: sbit_def bv' nth_append)
      next
        case True
        then have o: "p mod 32 < n" using that by (metis add_less_cancel_left mult_div_mod_eq)
        have "\<not> bit (drop_bit (n + L - 32) (Bits c)) (31 - p mod 32)"
        proof
          assume "bit (drop_bit (n + L - 32) (Bits c)) (31 - p mod 32)"
          then have "bit (Bits c) (n + L - 32 + (31 - p mod 32))" by (simp add: bit_drop_bit_eq)
          moreover have "L \<le> n + L - 32 + (31 - p mod 32)" using o spans by linarith
          ultimately show False using high by blast
        qed
        then show ?thesis using True len by (simp add: sbit_def bv' w_def bit_or_iff nth_append)
      qed
    qed
    have new: "sbit bv' (32 * q + n + j) = cbit c j" if "j < L" for j
    proof (cases "n + j < 32")
      case True
      then have "sbit bv' (32 * q + n + j) = bit w (31 - (n + j))"
        using len by (simp add: sbit_def pos bv' nth_append)
      also have "\<dots> = bit (drop_bit (n + L - 32) (Bits c)) (31 - (n + j))"
        using pad [of "n + j"] True by (simp add: w_def bit_or_iff)
      also have "\<dots> = bit (Bits c) (n + L - 32 + (31 - (n + j)))"
        by (simp add: bit_drop_bit_eq)
      also have "n + L - 32 + (31 - (n + j)) = L - 1 - j" using that spans True by linarith
      finally show ?thesis by (simp add: cbit)
    next
      case False
      with that L n have d: "(n + j) div 32 = 1" "(n + j) mod 32 = n + j - 32"
        by (simp_all add: div_nat_eqI mod_if)
      then have "sbit bv' (32 * q + n + j) = bit w' (31 - (n + j - 32))"
        using len by (simp add: sbit_def pos bv' nth_append)
      also have "\<dots> = bit (Bits c) (31 - (n + j - 32) - (64 - n - L))"
        using that False L n by (simp add: w'_def bit_push_bit_iff possible_bit_word) linarith
      also have "31 - (n + j - 32) - (64 - n - L) = L - 1 - j" using that False L n by linarith
      finally show ?thesis by (simp add: cbit)
    qed
    from old new show ?thesis by blast
  qed
qed

lemma endpos_ge: "k \<le> endpos t k s"
proof (induction s arbitrary: k)
  case Nil
  show ?case by simp
next
  case (Cons r s)
  show ?case
  proof (cases "map_of t r")
    case None
    then show ?thesis by simp
  next
    case (Some c)
    from Cons.IH [of "k + nat (Size c)"] Some show ?thesis by simp
  qed
qed

lemma encode_loop_laid:
  assumes "encode_loop t (bv0, sz0) s = Inr (bv, sz)"
    and "len_inv (bv0, sz0)" and "pad_inv (bv0, sz0)"
    and good: "\<forall>r c. map_of t r = Some c \<longrightarrow> tidy c \<and> Size c \<le> 32"
  shows "laid t bv (nat sz0) s \<and> sz = int (endpos t (nat sz0) s)
         \<and> (\<forall>p < nat sz0. sbit bv p = sbit bv0 p) \<and> len_inv (bv, sz)"
  using assms(1-3)
proof (induction s arbitrary: bv0 sz0)
  case Nil
  then show ?case by (simp add: len_inv_def)
next
  case (Cons r s)
  from Cons.prems(1) obtain c where c: "map_of t r = Some c"
    and run: "encode_loop t (encode_step (bv0, sz0) c) s = Inr (bv, sz)"
    by (auto split: option.splits)
  from good c have tidy: "tidy c" and le: "Size c \<le> 32" by blast+
  then have nonneg: "0 \<le> Size c" by (simp add: tidy_def)
  obtain bv1 sz1 where step: "encode_step (bv0, sz0) c = (bv1, sz1)"
    by (cases "encode_step (bv0, sz0) c")
  have sz1: "sz1 = sz0 + Size c"
    using encode_step_snd [of "(bv0, sz0)" c] step by simp
  have len1: "len_inv (bv1, sz1)"
    using len_inv_step [OF Cons.prems(2) nonneg le] step by simp
  have pad1: "pad_inv (bv1, sz1)"
    using pad_inv_step [OF Cons.prems(3) nonneg] step by simp
  from Cons.prems(2) have sz0: "0 \<le> sz0" and len0: "int (length bv0) = sz0 div 32 + 1"
    by (simp_all add: len_inv_def)
  define q where "q = nat (sz0 div 32)"
  define n where "n = nat (sz0 mod 32)"
  define L where "L = nat (Size c)"
  have lenq: "length bv0 = q + 1" using len0 sz0 by (simp add: q_def)
  have div0: "0 \<le> sz0 div 32" and mod0: "0 \<le> sz0 mod 32" "sz0 mod 32 < 32"
    using sz0 by (simp_all add: pos_imp_zdiv_nonneg_iff)
  have szq: "sz0 = int (32 * q + n)" using div0 mod0 by (simp add: q_def n_def)
  have n32: "n < 32" using mod0 by (simp add: n_def)
  have size: "Size c = int L" "L \<le> 32" using nonneg le by (simp_all add: L_def)
  have pad: "\<not> bit (bv0 ! q) (31 - j)" if "n \<le> j" "j < 32" for j
  proof -
    from Cons.prems(3) have "\<forall>i < length bv0. \<forall>j < 32.
        sz0 \<le> 32 * int i + int j \<longrightarrow> \<not> bit (bv0 ! i) (31 - j)"
      by (simp add: pad_inv_def)
    moreover have "q < length bv0" using lenq by simp
    moreover have "sz0 \<le> 32 * int q + int j" using that szq by simp
    ultimately show ?thesis using that(2) by blast
  qed
  from encode_step_bits [OF lenq szq n32 size tidy pad step]
  have keep: "\<And>p. p < 32 * q + n \<Longrightarrow> sbit bv1 p = sbit bv0 p"
    and new: "\<And>j. j < L \<Longrightarrow> sbit bv1 (32 * q + n + j) = cbit c j"
    by blast+
  have pos0: "nat sz0 = 32 * q + n" using szq by simp
  have pos1: "nat sz1 = nat sz0 + L" using sz1 sz0 nonneg by (simp add: L_def nat_add_distrib)
  from Cons.IH [OF run [unfolded step] len1 pad1]
  have IH: "laid t bv (nat sz1) s" "sz = int (endpos t (nat sz1) s)"
    "\<And>p. p < nat sz1 \<Longrightarrow> sbit bv p = sbit bv1 p" "len_inv (bv, sz)"
    by blast+
  have "sbit bv (nat sz0 + j) = cbit c j" if "j < L" for j
    using IH(3) [of "nat sz0 + j"] new [OF that] that by (simp add: pos0 pos1)
  moreover have "sbit bv p = sbit bv0 p" if "p < nat sz0" for p
    using IH(3) [of p] keep [of p] that by (simp add: pos0 pos1)
  ultimately show ?case
    using IH(1,2,4) c by (simp add: pos1 L_def)
qed

lemma pop_drop: "m < length bv \<Longrightarrow> pop (drop m bv) = Some (bv ! m, drop (Suc m) bv)"
  by (simp flip: Cons_nth_drop_Suc)

lemma refill_cur:
  assumes "(k + 1) div 32 < length bv"
  shows "refill (int k + 1) (push_bit 1 (cur bv k)) (rest bv k) = Some (cur bv (k + 1), rest bv (k + 1))"
proof -
  have "int ((k + 1) mod 32) = (int k + 1) mod 32"
    by (simp add: zmod_int add.commute)
  then have a: "(int k + 1) AND 0x1F = int ((k + 1) mod 32)"
    by (simp only: and_31)
  show ?thesis
  proof (cases "(k + 1) mod 32 = 0")
    case True
    then have d: "(k + 1) div 32 = k div 32 + 1" by (simp add: div_Suc)
    with assms have "k div 32 + 1 < length bv" by simp
    from pop_drop [OF this] True d show ?thesis
      unfolding refill_def a by (simp add: cur_def rest_def)
  next
    case False
    then have d: "(k + 1) div 32 = k div 32" "(k + 1) mod 32 = k mod 32 + 1"
      by (simp_all add: div_Suc mod_Suc split: if_splits)
    have "push_bit 1 (push_bit (k mod 32) (bv ! (k div 32)))
          = push_bit (k mod 32 + 1) (bv ! (k div 32))"
      by (simp only: push_bit_push_bit add.commute)
    with False show ?thesis
      unfolding refill_def a cur_def rest_def d by simp
  qed
qed

lemma top_bit: "drop_bit 31 (v::uint32) = of_bool (bit v 31)"
proof (rule bit_eqI)
  fix m
  have "bit (drop_bit 31 v) m \<longleftrightarrow> bit v (31 + m)" by (simp add: bit_drop_bit_eq)
  also have "\<dots> \<longleftrightarrow> m = 0 \<and> bit v 31"
  proof (cases m)
    case 0
    then show ?thesis by simp
  next
    case (Suc m')
    have "\<not> bit v (31 + m)" using bit_imp_le_length [of v "31 + m"] Suc by auto
    with Suc show ?thesis by simp
  qed
  finally show "bit (drop_bit 31 v) m = bit (of_bool (bit v 31) :: uint32) m"
    by (simp add: bit_of_bool_iff)
qed

lemma top_bit_cur: "drop_bit 31 (cur bv k) = of_bool (sbit bv k)"
proof -
  have "k mod 32 \<le> 31" by simp
  then have "bit (cur bv k) 31 = sbit bv k"
    unfolding cur_def sbit_def by (simp add: bit_push_bit_iff possible_bit_word)
  then show ?thesis by (simp only: top_bit)
qed

lemma acc_step:
  assumes "j < L"
  shows "push_bit 1 (drop_bit (L - j) (B::uint32)) OR of_bool (bit B (L - 1 - j))
         = drop_bit (L - (j + 1)) B"
proof (rule bit_eqI)
  fix m
  assume "possible_bit TYPE(uint32) m"
  then have m32: "m < 32" by (simp add: possible_bit_word)
  show "bit (push_bit 1 (drop_bit (L - j) B) OR of_bool (bit B (L - 1 - j))) m
        = bit (drop_bit (L - (j + 1)) B) m"
  proof (cases m)
    case 0
    then show ?thesis
      by (simp only: bit_or_iff bit_shift1 bit_of_bool_iff bit_drop_bit_eq) simp
  next
    case (Suc m')
    with assms have "L - j + (m - 1) = L - (j + 1) + m" by linarith
    with Suc m32 show ?thesis
      by (simp only: bit_or_iff bit_shift1 bit_of_bool_iff bit_drop_bit_eq) simp
  qed
qed

lemma drop_all: "tidy c \<Longrightarrow> drop_bit (nat (Size c)) (Bits c) = 0"
proof (rule bit_eqI)
  fix m
  assume "tidy c"
  from tidy_high [OF this, of "nat (Size c) + m"]
  show "bit (drop_bit (nat (Size c)) (Bits c)) m = bit (0::uint32) m"
    by (simp add: bit_drop_bit_eq)
qed

lemma find_Some_set: "find P xs = Some x \<Longrightarrow> x \<in> set xs \<and> P x"
  by (induction xs) (auto split: if_splits)

lemma prefix_free_decodes:
  assumes pf: "prefix_free t" and e: "(r, c) \<in> set t" and nonneg: "0 \<le> Size c"
  shows "decodes t c r"
proof -
  have none: "matching t (int j) (drop_bit (nat (Size c) - j) (Bits c)) = None"
    if j: "0 < j" "j < nat (Size c)" for j
  proof (rule ccontr)
    assume "matching t (int j) (drop_bit (nat (Size c) - j) (Bits c)) \<noteq> None"
    then obtain e' where e': "e' \<in> set t" "Size (snd e') = int j"
      "Bits (snd e') = drop_bit (nat (Size c) - j) (Bits c)"
      by (auto simp: matching_def find_None_iff)
    from j e'(2) have ne: "e' \<noteq> (r, c)" by auto
    from j e'(2) have m: "min (Size (snd e')) (Size c) = int j" by simp
    have "prefix_bits (snd e') (int j) = Bits (snd e')"
      by (simp add: prefix_bits_def e'(2))
    moreover have "prefix_bits c (int j) = drop_bit (nat (Size c) - j) (Bits c)"
    proof -
      from j have "\<not> Size c - int j < 0" "nat (Size c - int j) = nat (Size c) - j" by linarith+
      then show ?thesis by (simp only: prefix_bits_def shr_def if_False)
    qed
    ultimately have "prefix_bits (snd e') (int j) = prefix_bits c (int j)"
      using e'(3) by simp
    moreover from pf e'(1) e ne
    have "prefix_bits (snd e') (min (Size (snd e')) (Size (snd (r, c))))
          \<noteq> prefix_bits (snd (r, c)) (min (Size (snd e')) (Size (snd (r, c))))"
      unfolding prefix_free_def by blast
    ultimately show False by (simp add: m)
  qed
  have "matching t (Size c) (Bits c) \<noteq> None"
    using e by (auto simp: matching_def find_None_iff)
  then obtain e' where f: "matching t (Size c) (Bits c) = Some e'" by auto
  then have e': "e' \<in> set t" "Size (snd e') = Size c" "Bits (snd e') = Bits c"
    by (auto simp: matching_def dest: find_Some_set)
  have "e' = (r, c)"
  proof (rule ccontr)
    assume ne: "e' \<noteq> (r, c)"
    with pf e'(1) e
    have "prefix_bits (snd e') (min (Size (snd e')) (Size (snd (r, c))))
          \<noteq> prefix_bits (snd (r, c)) (min (Size (snd e')) (Size (snd (r, c))))"
      unfolding prefix_free_def by blast
    then show False by (simp add: e'(2,3) prefix_bits_def)
  qed
  with f none show ?thesis by (auto simp: decodes_def)
qed

lemma decode_bit:
  assumes size: "Size c = int L" "L \<le> 32"
    and bits: "\<And>j. j < L \<Longrightarrow> sbit bv (k + j) = cbit c j"
    and sz: "int (k + L) \<le> sz" and len: "(k + L) div 32 < length bv"
    and j: "j < L"
  shows "decode_loop t sz (drop_bit (L - j) (Bits c)) (cur bv (k + j)) (rest bv (k + j))
           (int j) (int (k + j)) b
         = (case matching t (int (j + 1)) (drop_bit (L - (j + 1)) (Bits c)) of
              Some (r, code) \<Rightarrow>
                decode_loop t sz 0 (cur bv (k + (j + 1))) (rest bv (k + (j + 1))) 0
                  (int (k + (j + 1))) (b @ [r])
            | None \<Rightarrow>
                decode_loop t sz (drop_bit (L - (j + 1)) (Bits c)) (cur bv (k + (j + 1)))
                  (rest bv (k + (j + 1))) (int (j + 1)) (int (k + (j + 1))) b)"
proof -
  have i: "int (k + j) < sz" using sz j by simp
  have n: "int j + 1 \<le> 32" using j size(2) by simp
  have e1: "int j + 1 = int (j + 1)" and e2: "int (k + j) + 1 = int (k + (j + 1))"
    and e3: "k + j + 1 = k + (j + 1)" by simp_all
  have "(k + (j + 1)) div 32 \<le> (k + L) div 32" using j by (intro div_le_mono) simp
  with len have "(k + j + 1) div 32 < length bv" by (simp only: e3)
  from refill_cur [OF this]
  have fill: "refill (int (k + j) + 1) (push_bit 1 (cur bv (k + j))) (rest bv (k + j))
              = Some (cur bv (k + (j + 1)), rest bv (k + (j + 1)))"
    by (simp only: e3)
  have "cbit c j = bit (Bits c) (L - 1 - j)" by (simp only: cbit_def size nat_int)
  with bits [OF j] have "sbit bv (k + j) = bit (Bits c) (L - 1 - j)" by simp
  with acc_step [OF j, of "Bits c"]
  have acc: "push_bit 1 (drop_bit (L - j) (Bits c)) OR drop_bit 31 (cur bv (k + j))
             = drop_bit (L - (j + 1)) (Bits c)"
    by (simp only: top_bit_cur)
  from decode_loop_next [OF i n fill, of t "drop_bit (L - j) (Bits c)" b]
  show ?thesis by (simp only: acc e1 e2)
qed

lemma decode_codeword_from:
  assumes size: "Size c = int L" "L \<le> 32"
    and dec: "decodes t c r"
    and bits: "\<And>j. j < L \<Longrightarrow> sbit bv (k + j) = cbit c j"
    and sz: "int (k + L) \<le> sz" and len: "(k + L) div 32 < length bv"
    and j: "j < L"
  shows "decode_loop t sz (drop_bit (L - j) (Bits c)) (cur bv (k + j)) (rest bv (k + j))
           (int j) (int (k + j)) b
         = decode_loop t sz 0 (cur bv (k + L)) (rest bv (k + L)) 0 (int (k + L)) (b @ [r])"
  using j
proof (induction d \<equiv> "L - j - 1" arbitrary: j)
  case 0
  then have L: "L = j + 1" by simp
  from dec obtain c' where "matching t (int L) (Bits c) = Some (r, c')"
    by (auto simp: decodes_def size)
  then have "matching t (int (j + 1)) (drop_bit (L - (j + 1)) (Bits c)) = Some (r, c')"
    by (simp add: L)
  with decode_bit [OF size bits sz len "0.prems", of t b]
  show ?case by (simp add: L)
next
  case (Suc d)
  then have jL: "j + 1 < L" by simp
  from dec have "\<forall>j. 0 < j \<and> j < L \<longrightarrow> matching t (int j) (drop_bit (L - j) (Bits c)) = None"
    by (simp add: decodes_def size)
  from this [rule_format, of "j + 1"] jL
  have "matching t (int (j + 1)) (drop_bit (L - (j + 1)) (Bits c)) = None" by simp
  with decode_bit [OF size bits sz len Suc.prems, of t b]
  have "decode_loop t sz (drop_bit (L - j) (Bits c)) (cur bv (k + j)) (rest bv (k + j))
          (int j) (int (k + j)) b
        = decode_loop t sz (drop_bit (L - (j + 1)) (Bits c)) (cur bv (k + (j + 1)))
            (rest bv (k + (j + 1))) (int (j + 1)) (int (k + (j + 1))) b"
    by simp
  also have "\<dots> = decode_loop t sz 0 (cur bv (k + L)) (rest bv (k + L)) 0 (int (k + L)) (b @ [r])"
    using Suc.hyps(2) jL by (intro Suc.hyps(1)) simp_all
  finally show ?case .
qed

lemma decode_codeword:
  assumes "tidy c" and "Size c = int L" "L \<le> 32" "0 < L"
    and "decodes t c r"
    and "\<And>j. j < L \<Longrightarrow> sbit bv (k + j) = cbit c j"
    and "int (k + L) \<le> sz" and "(k + L) div 32 < length bv"
  shows "decode_loop t sz 0 (cur bv k) (rest bv k) 0 (int k) b
         = decode_loop t sz 0 (cur bv (k + L)) (rest bv (k + L)) 0 (int (k + L)) (b @ [r])"
proof -
  have "drop_bit (L - 0) (Bits c) = 0"
    using drop_all [OF assms(1)] assms(2) by simp
  with decode_codeword_from [OF assms(2,3,5-8) assms(4), of b] show ?thesis by simp
qed

lemma decode_laid:
  assumes table: "\<forall>r c. map_of t r = Some c \<longrightarrow>
                    tidy c \<and> 0 < Size c \<and> Size c \<le> 32 \<and> decodes t c r"
    and "laid t bv k s" and "int (endpos t k s) = sz" and len: "nat sz div 32 < length bv"
  shows "decode_loop t sz 0 (cur bv k) (rest bv k) 0 (int k) b = Some (Inr (b @ s, 0))"
  using assms(2,3)
proof (induction s arbitrary: k b)
  case Nil
  then have "\<not> int k < sz" by simp
  then show ?case by (simp add: decode_loop_done)
next
  case (Cons r s)
  from Cons.prems(1) obtain c where c: "map_of t r = Some c"
    and bits: "\<And>j. j < nat (Size c) \<Longrightarrow> sbit bv (k + j) = cbit c j"
    and laid: "laid t bv (k + nat (Size c)) s"
    by (auto split: option.splits)
  define L where "L = nat (Size c)"
  from table c have tc: "tidy c \<and> 0 < Size c \<and> Size c \<le> 32 \<and> decodes t c r" by blast
  then have tidy: "tidy c" and size: "Size c = int L" "L \<le> 32" "0 < L"
    and dec: "decodes t c r" by (auto simp: L_def)
  from Cons.prems(2) c have fin: "int (endpos t (k + L) s) = sz" by (simp add: L_def)
  with endpos_ge [of "k + L" t s] have le: "int (k + L) \<le> sz" by linarith
  then have "(k + L) div 32 \<le> nat sz div 32" by (intro div_le_mono) linarith
  with len have len': "(k + L) div 32 < length bv" by simp
  have "decode_loop t sz 0 (cur bv k) (rest bv k) 0 (int k) b
        = decode_loop t sz 0 (cur bv (k + L)) (rest bv (k + L)) 0 (int (k + L)) (b @ [r])"
    using bits by (intro decode_codeword [OF tidy size dec _ le len']) (simp add: L_def)
  also have "\<dots> = Some (Inr ((b @ [r]) @ s, 0))"
    using laid fin by (intro Cons.IH) (simp_all add: L_def)
  finally show ?case by simp
qed

lemma Encode_Decode:
  assumes entries: "\<And>r c. (r, c) \<in> set t \<Longrightarrow> tidy c \<and> 0 < Size c \<and> Size c \<le> 32"
    and pf: "prefix_free t"
    and enc: "Encode t s = Inr (bitVec, sz)"
  shows "Decode t bitVec sz = Some (s, None)"
proof -
  from enc have run: "encode_loop t ([0], 0) s = Inr (bitVec, sz)"
    by (simp add: Encode_def split: if_splits)
  have good: "\<forall>r c. map_of t r = Some c \<longrightarrow> tidy c \<and> Size c \<le> 32"
    using entries by (auto dest: map_of_SomeD)
  have table: "\<forall>r c. map_of t r = Some c \<longrightarrow>
                 tidy c \<and> 0 < Size c \<and> Size c \<le> 32 \<and> decodes t c r"
  proof (intro allI impI)
    fix r c assume "map_of t r = Some c"
    from map_of_SomeD [OF this] have e: "(r, c) \<in> set t" .
    from entries [OF e] have "0 \<le> Size c" by simp
    from prefix_free_decodes [OF pf e this] entries [OF e]
    show "tidy c \<and> 0 < Size c \<and> Size c \<le> 32 \<and> decodes t c r" by simp
  qed
  have "len_inv ([0], 0)" "pad_inv ([0], 0)" by (simp_all add: len_inv_def pad_inv_def)
  from encode_loop_laid [OF run this good]
  have "laid t bitVec (nat 0) s \<and> sz = int (endpos t (nat 0) s) \<and> len_inv (bitVec, sz)"
    by blast
  then have laid: "laid t bitVec 0 s" and fin: "sz = int (endpos t 0 s)"
    and len: "len_inv (bitVec, sz)"
    unfolding nat_0 by blast+
  from len have sz: "0 \<le> sz" and words: "int (length bitVec) = sz div 32 + 1"
    by (simp_all add: len_inv_def)
  from words sz have check: "\<not> int (length bitVec) \<le> quo sz 32"
    by (simp add: quo_nonneg)
  from words sz have div0: "0 \<le> sz div 32" by (simp add: pos_imp_zdiv_nonneg_iff)
  with words have ne: "bitVec \<noteq> []" by auto
  then obtain v ws where bv: "bitVec = v # ws" by (cases bitVec) auto
  have start: "cur bitVec 0 = v" "rest bitVec 0 = ws" by (simp_all add: cur_def rest_def bv)
  have "nat sz div 32 = nat (sz div 32)" using sz by (simp add: nat_div_distrib)
  with words div0 have "nat sz div 32 < length bitVec" by linarith
  from decode_laid [OF table laid fin [symmetric] this, of "[]"]
  have "decode_loop t sz 0 v ws 0 0 [] = Some (Inr (s, 0))" by (simp add: start)
  with check bv show ?thesis by (simp add: Decode_def)
qed

section \<open>The claims\<close>

text \<open>
  C1, as stated, fails twice.  A distribution of one symbol gives that symbol the empty
  code (\<open>divide\<close> returns at once for a slice of fewer than two codes): \<open>Encode\<close>
  writes no bit and \<open>Decode\<close> returns the empty string.  A table with a code of more
  than 32 bits (34 symbols of weights 100 to 67) does not decode either: the 33 bits of symbol
  33 come back as symbol 0 and 32 bits that match nothing.
\<close>

theorem roundtrip_counterexample:
  "Encode (BuildTableFromString exact [97]) [97] = Inr ([0], 0)
   \<and> Decode (BuildTableFromString exact [97]) [0] 0 = Some ([], None)
   \<and> Encode (BuildTable exact steep34) [33] = Inr ([0x7FFFFFFF, 0x80000000], 33)
   \<and> Decode (BuildTable exact steep34) [0x7FFFFFFF, 0x80000000] 33 = Some ([0], Some TrailingBits)"
  by code_simp

text \<open>
  C1, amended: for every table built by \<open>BuildTable\<close> (the two other constructors call
  it with the probability map they compute) from a distribution of at least two
  symbols in which no code is longer than 32 bits, as is the case up to 33 symbols,
  taken in any order of iteration: if \<open>Encode\<close> returns \<open>(bitVec, size)\<close> for a
  string then \<open>Decode\<close> of \<open>(bitVec, size)\<close> returns that string and no error.
  This holds whatever the operations on \<open>float64\<close> round to, and so wherever the
  pivots fall.
\<close>

theorem roundtrip:
  assumes "set t = set (BuildTable fl freq)"
    and "2 \<le> length freq"
    and "length freq \<le> 33 \<or> (\<forall>(r, c) \<in> set (BuildTable fl freq). Size c \<le> 32)"
    and "Encode t s = Inr (bitVec, sz)"
  shows "Decode t bitVec sz = Some (s, None)"
proof -
  from assms(3) have sizes: "\<forall>(r, c) \<in> set (BuildTable fl freq). Size c \<le> 32"
    using BuildTable_sizes by blast
  have "tidy c \<and> 0 < Size c \<and> Size c \<le> 32" if "(r, c) \<in> set t" for r c
    using BuildTable_entry [OF sizes, of r c] that assms(1,2) by simp
  moreover have "prefix_free t"
    using BuildTable_prefix_free [OF sizes] by (simp add: prefix_free_def assms(1))
  ultimately show ?thesis using assms(4) by (rule Encode_Decode)
qed

theorem roundtrip_witness:
  "Encode (BuildTable exact [(97, 2 / 3), (98, 1 / 3)]) [97, 97, 98] = Inr ([0x20000000], 3)
   \<and> Decode (BuildTable exact [(97, 2 / 3), (98, 1 / 3)]) [0x20000000] 3 = Some ([97, 97, 98], None)"
proof -
  have h2: "2 \<le> length [(97 :: rune, 2 / 3 :: real), (98, 1 / 3)]" by simp
  have h3: "length [(97 :: rune, 2 / 3 :: real), (98, 1 / 3)] \<le> 33
            \<or> (\<forall>(r, c) \<in> set (BuildTable exact [(97, 2 / 3), (98, 1 / 3)]). Size c \<le> 32)" by simp
  have h4: "Encode (BuildTable exact [(97, 2 / 3), (98, 1 / 3)]) [97, 97, 98] = Inr ([0x20000000], 3)"
    by code_simp
  show ?thesis by (intro conjI h4 roundtrip [OF refl h2 h3 h4])
qed

text \<open>
  C2, as stated, fails: \<open>Bits\<close> is a \<open>uint32\<close> and \<open>divide\<close> shifts it once per
  level, so a code of more than 32 bits loses its leading bits.  For 34 symbols of
  weights 100, 99, ..., 67 every first difference is 1 or more and every pivot is 1;
  symbol 0 gets the code \<open>0\<close> and symbol 33 the 33 bits \<open>0xFFFFFFFF\<close>, whose leading
  bit (the pattern shifted right by 32) is 0 as well.
\<close>

theorem prefix_free_counterexample:
  "map_of (BuildTable exact steep34) 0 = Some \<lparr>Char = 0, Prob = 100, Bits = 0, Size = 1\<rparr>
   \<and> map_of (BuildTable exact steep34) 33 = Some \<lparr>Char = 33, Prob = 67, Bits = 0xFFFFFFFF, Size = 33\<rparr>
   \<and> prefix_bits \<lparr>Char = 0, Prob = 100 :: real, Bits = 0, Size = 1\<rparr> 1
       = prefix_bits \<lparr>Char = 33, Prob = 67 :: real, Bits = 0xFFFFFFFF, Size = 33\<rparr> 1
   \<and> \<not> prefix_free (BuildTable exact steep34)"
  by code_simp

text \<open>
  C2, amended: every table that \<open>BuildTable\<close> builds with no code longer than 32 bits
  is prefix-free, and a table of at most 33 symbols is such a table: two distinct
  entries differ in their leading \<open>min l1 l2\<close> bits.  This holds whatever the
  operations on \<open>float64\<close> round to, and so wherever the pivots fall.
\<close>

theorem BuildTable_prefix_free_upto_32:
  assumes "length freq \<le> 33 \<or> (\<forall>(r, c) \<in> set (BuildTable fl freq). Size c \<le> 32)"
  shows "prefix_free (BuildTable fl freq)"
proof -
  from assms have "\<forall>(r, c) \<in> set (BuildTable fl freq). Size c \<le> 32"
    using BuildTable_sizes by blast
  then show ?thesis by (rule BuildTable_prefix_free)
qed

theorem BuildTable_prefix_free_upto_32_witness:
  "prefix_free (BuildTable exact [(97, 1 / 2), (98, 1 / 3), (99, 1 / 6)])"
proof -
  have h: "length [(97 :: rune, 1 / 2 :: real), (98, 1 / 3), (99, 1 / 6)] \<le> 33
           \<or> (\<forall>(r, c) \<in> set (BuildTable exact [(97, 1 / 2), (98, 1 / 3), (99, 1 / 6)]). Size c \<le> 32)"
    by simp
  show ?thesis by (rule BuildTable_prefix_free_upto_32 [OF h])
qed

text \<open>
  C3, as stated, fails: for \<open>"aab"\<close> the table gives \<open>b\<close> a code of one bit, not two,
  and \<open>Encode\<close> returns 3 bits, not 4.
\<close>

theorem aab_counterexample:
  "map_option Size (map_of (BuildTableFromString exact [97, 97, 98]) 98) = Some 1
   \<and> map_sum id snd (Encode (BuildTableFromString exact [97, 97, 98]) [97, 97, 98]) = Inr 3"
  by code_simp

text \<open>
  C3, amended: for the string \<open>"aab"\<close> (runes 97, 97, 98) \<open>BuildTableFromString\<close> gives
  \<open>a\<close> the one-bit code 0 and \<open>b\<close> the one-bit code 1, \<open>Encode\<close> of \<open>"aab"\<close> returns
  the single word \<open>0x20000000\<close> with 3 bits, and \<open>Decode\<close> of that output returns
  \<open>"aab"\<close> with no error.
\<close>

theorem aab_scenario:
  "BuildTableFromString exact [97, 97, 98]
     = [(97, \<lparr>Char = 97, Prob = 2 / 3, Bits = 0, Size = 1\<rparr>),
        (98, \<lparr>Char = 98, Prob = 1 / 3, Bits = 1, Size = 1\<rparr>)]
   \<and> Encode (BuildTableFromString exact [97, 97, 98]) [97, 97, 98] = Inr ([0x20000000], 3)
   \<and> Decode (BuildTableFromString exact [97, 97, 98]) [0x20000000] 3 = Some ([97, 97, 98], None)"
  by code_simp

text \<open>
  C4, as stated, fails: \<open>BuildTable\<close> has no error result, and a map with a negative
  probability gets a table like any other.
\<close>

theorem negative_probability_counterexample:
  "BuildTable exact [(97, 1 / 2), (98, - 1)]
     = [(97, \<lparr>Char = 97, Prob = 1 / 2, Bits = 0, Size = 1\<rparr>),
        (98, \<lparr>Char = 98, Prob = - 1, Bits = 1, Size = 1\<rparr>)]"
  by code_simp

text \<open>
  C4, amended: \<open>BuildTable\<close> never fails.  For every probability map, negative and zero
  probabilities and any sum included, it returns a table whose entries carry exactly
  the symbols of the map, each with the probability the map gave it.
\<close>

theorem BuildTable_total:
  "mset (map (\<lambda>(r, c). (r, Prob c)) (BuildTable fl freq)) = mset freq"
proof -
  have "mset (map (\<lambda>(r, c). (r, Prob c)) (BuildTable fl freq))
        = image_mset (\<lambda>c. (Char c, Prob c)) (mset (sort_codes fl (initial_codes freq)))"
    by (simp only: BuildTable_entries mset_map)
  also have "\<dots> = image_mset (\<lambda>c. (Char c, Prob c)) (mset (initial_codes freq))"
    by (simp only: mset_sort_codes)
  also have "\<dots> = mset (map (\<lambda>c. (Char c, Prob c)) (initial_codes freq))"
    by simp
  also have "map (\<lambda>c. (Char c, Prob c)) (initial_codes freq) = freq"
    by (simp add: initial_codes_def comp_def case_prod_beta)
  finally show ?thesis .
qed

text \<open>
  C5, as stated, fails where the code fills the current word exactly
  (\<open>length = remaining\<close>): the test of \<open>Encode\<close> is \<open>n + code.Size < 32\<close>, so the
  code takes the second branch and appends a word, which is zero.  Here the 32nd
  one-bit code of a string (with the table of \<open>"aab"\<close>) fills the first word and a
  second word appears.
\<close>

theorem packing_counterexample:
  "encode_step ([0], 31) \<lparr>Char = 98, Prob = 1 / 2 :: real, Bits = 1, Size = 1\<rparr> = ([1, 0], 32)
   \<and> pack_spec ([0], 31) \<lparr>Char = 98, Prob = 1 / 2 :: real, Bits = 1, Size = 1\<rparr> = ([1], 32)
   \<and> Encode (BuildTableFromString exact [97, 97, 98]) (replicate 31 97 @ [98]) = Inr ([1, 0], 32)"
  by code_simp

text \<open>
  C5, amended: for a code of at most 32 bits one turn of the loop of \<open>Encode\<close> is the
  packing rule of the specification, except that a code that fills the current word
  exactly (\<open>length = remaining\<close>) is ORed into it unshifted and a new zero word is
  appended as well; a new word is appended exactly when \<open>length \<ge> remaining\<close>.
\<close>

theorem encode_step_packing:
  assumes "Size code \<le> 32"
  shows "encode_step (bitVec, sz) code =
           (if Size code = 32 - sz mod 32
            then (fst (pack_spec (bitVec, sz) code) @ [0], sz + Size code)
            else pack_spec (bitVec, sz) code)"
proof -
  let ?n = "sz mod 32"
  have n: "0 \<le> ?n" "?n < 32" by simp_all
  consider (fits) "?n + Size code < 32" | (fills) "?n + Size code = 32" | (spans) "32 < ?n + Size code"
    by linarith
  then show ?thesis
  proof cases
    case fits
    then show ?thesis
      by (simp add: encode_step_def pack_spec_def Let_def and_31 shl_def)
  next
    case fills
    then have "Size code = 32 - ?n" by simp
    moreover have "shl (Bits code) 32 = 0" by (simp add: shl_def)
    ultimately show ?thesis
      using n by (simp add: encode_step_def pack_spec_def Let_def and_31 shr_def)
  next
    case spans
    define k where "k = nat (Size code - (32 - ?n))"
    have k: "k \<le> 32" "int k = Size code - (32 - ?n)" "0 < k"
      using spans assms n by (simp_all add: k_def)
    have "shl (Bits code) (32 - (Size code - (32 - ?n))) = push_bit (32 - k) (Bits code)"
      using k by (simp add: shl_def nat_diff_distrib' flip: k(2))
    also have "\<dots> = push_bit (32 - k) (take_bit k (Bits code))"
      using k(1) by (simp only: push_take_word)
    finally have a: "shl (Bits code) (32 - (Size code - (32 - ?n)))
                     = push_bit (32 - k) (take_bit k (Bits code))" .
    have b: "shr (Bits code) (Size code - (32 - ?n)) = drop_bit k (Bits code)"
      using k by (simp add: shr_def k_def)
    from spans have c: "\<not> ?n + Size code < 32" "\<not> Size code \<le> 32 - ?n" "Size code \<noteq> 32 - ?n"
      by simp_all
    show ?thesis
      unfolding encode_step_def pack_spec_def Let_def and_31 fst_conv snd_conv
      using c by (simp only: a b k_def [symmetric] if_False)
  qed
qed

theorem encode_step_packing_witness:
  "Size \<lparr>Char = 98, Prob = 1 / 2 :: real, Bits = 5, Size = 3\<rparr> \<le> 32
   \<and> encode_step ([7], 30) \<lparr>Char = 98, Prob = 1 / 2 :: real, Bits = 5, Size = 3\<rparr>
       = pack_spec ([7], 30) \<lparr>Char = 98, Prob = 1 / 2 :: real, Bits = 5, Size = 3\<rparr>"
proof -
  have h: "Size \<lparr>Char = 98, Prob = 1 / 2 :: real, Bits = 5, Size = 3\<rparr> \<le> 32" by simp
  from encode_step_packing [OF h, of "[7]" 30] show ?thesis by simp
qed




text \<open>
  C7: \<open>Decode\<close> returns the error \<open>invalid bit vector\<close> exactly when the vector does
  not hold more words than \<open>size/32\<close> (Go's truncating division), that is unless
  \<open>len(bitVec) \<ge> size/32 + 1\<close>; the test is made before any bit is read.
\<close>

theorem Decode_InvalidVector_iff:
  "(map_option snd (Decode t bitVec sz) = Some (Some InvalidVector))
   = (int (length bitVec) \<le> quo sz 32)"
proof (cases "int (length bitVec) \<le> quo sz 32")
  case True
  then show ?thesis by (simp add: Decode_def)
next
  case False
  have "map_option snd (Decode t bitVec sz) \<noteq> Some (Some InvalidVector)"
  proof (cases bitVec)
    case Nil
    with False show ?thesis by (simp add: Decode_def)
  next
    case (Cons v ws)
    show ?thesis
    proof (cases "decode_loop t sz 0 v ws 0 0 []")
      case None
      with False Cons show ?thesis by (simp add: Decode_def)
    next
      case (Some res)
      show ?thesis
      proof (cases res)
        case (Inl e)
        with Some have "e = NoMatchingCode" by (auto dest: decode_loop_error)
        with False Cons Some Inl show ?thesis by (simp add: Decode_def)
      next
        case (Inr bn)
        with False Cons Some show ?thesis
          by (cases bn) (simp add: Decode_def)
      qed
    qed
  qed
  with False show ?thesis by simp
qed







text \<open>
  C10, as stated, fails for a table with a code of more than 32 bits, which
  \<open>BuildTable\<close> makes from 34 symbols of weights 100, 99, ..., 67 (every first
  difference is 1 or more, so every pivot is 1 and the last two codes are 33 bits long).
  One turn of
  the loop of \<open>Encode\<close> appends at most one word: 32 codes of 33 bits give 1056 bits in
  33 words, where \<open>1056/32 + 1 = 34\<close>, and \<open>Decode\<close> rejects the output of \<open>Encode\<close>.
\<close>

theorem encode_length_counterexample:
  "map_sum id (\<lambda>(bitVec, sz). (int (length bitVec), quo sz 32 + 1, Decode (BuildTable exact steep34) bitVec sz))
     (Encode (BuildTable exact steep34) (replicate 32 33))
   = Inr (33, 34, Some ([], Some InvalidVector))"
  by code_simp

text \<open>
  C10, amended: for every table whose codes are between 0 and 32 bits long, a
  successful \<open>Encode\<close> returns exactly \<open>size/32 + 1\<close> words, and so its output passes
  the storage check \<open>len(bitVec) > size/32\<close> of \<open>Decode\<close>.
\<close>

theorem Encode_length:
  assumes "Encode t s = Inr (bitVec, sz)"
    and "\<forall>(r, code) \<in> set t. 0 \<le> Size code \<and> Size code \<le> 32"
  shows "int (length bitVec) = quo sz 32 + 1 \<and> quo sz 32 < int (length bitVec)"
proof -
  from assms(1) have run: "encode_loop t ([0], 0) s = Inr (bitVec, sz)"
    by (simp add: Encode_def split: if_splits)
  have "len_inv (bitVec, sz)"
  proof (rule encode_loop_invariant [OF run])
    show "len_inv ([0], 0)" by (simp add: len_inv_def)
  next
    fix st r code
    assume "len_inv st" and "map_of t r = Some code"
    from map_of_SomeD [OF this(2)] assms(2) have "0 \<le> Size code \<and> Size code \<le> 32" by auto
    with \<open>len_inv st\<close> show "len_inv (encode_step st code)" by (simp add: len_inv_step)
  qed
  then show ?thesis by (simp add: len_inv_def quo_nonneg)
qed

theorem Encode_length_witness:
  "Encode (BuildTableFromString exact [97, 97, 98]) [97, 97, 98] = Inr ([0x20000000], 3)
   \<and> int (length [0x20000000 :: uint32]) = quo 3 32 + 1
   \<and> quo 3 32 < int (length [0x20000000 :: uint32])"
proof -
  have h1: "Encode (BuildTableFromString exact [97, 97, 98]) [97, 97, 98] = Inr ([0x20000000], 3)"
    by code_simp
  have h2: "\<forall>(r, code) \<in> set (BuildTableFromString exact [97, 97, 98]). 0 \<le> Size code \<and> Size code \<le> 32"
    by code_simp
  from Encode_length [OF h1 h2] h1 show ?thesis by simp
qed

end
